theory Spec2Isabelle
  imports Main "HOL-Library.Multiset"
begin

section \<open>Strings: the JavaScript string operations used by the download manager\<close>

text \<open>
  Strings are lists of characters.  The functions below are the string operations of
  \<^verbatim>\<open>src/utils/download.js\<close>: template literals with a number, the regular
  expressions of \<^verbatim>\<open>extractFilename\<close>, \<^verbatim>\<open>String.prototype.split\<close> followed by
  \<^verbatim>\<open>filter(Boolean)\<close>, and \<^verbatim>\<open>String.prototype.slice\<close>.
\<close>

definition digit :: "nat \<Rightarrow> char" where
  "digit d = char_of (48 + d)"

text \<open>The decimal rendering of a non-negative integer inside a template literal.\<close>

function dec :: "nat \<Rightarrow> string" where
  "dec n = (if n < 10 then [digit n] else dec (n div 10) @ [digit (n mod 10)])"
  by pat_completeness auto
termination
  by (relation "measure (\<lambda>n. n)") auto

declare dec.simps [simp del]

text \<open>ASCII lower-casing: how the \<^verbatim>\<open>i\<close> flag compares the letters of the patterns.\<close>

definition lower :: "char \<Rightarrow> char" where
  "lower c = (if (65::nat) \<le> of_char c \<and> (of_char c :: nat) \<le> 90
               then char_of ((of_char c :: nat) + 32) else c)"

fun prefix_ci :: "string \<Rightarrow> string \<Rightarrow> bool" where
  "prefix_ci [] s = True"
| "prefix_ci (p # ps) [] = False"
| "prefix_ci (p # ps) (c # cs) = (lower c = p \<and> prefix_ci ps cs)"

definition video_exts :: "string list" where
  "video_exts = [''mp4'', ''webm'', ''mov'', ''avi'', ''mkv'']"

definition known_exts :: "string list" where
  "known_exts = [''jpg'', ''jpeg'', ''png'', ''webp'', ''gif'', ''mp4'', ''webm'', ''mov'', ''avi'', ''mkv'']"

text \<open>
  \<^verbatim>\<open>/\.(mp4|webm|mov|avi|mkv)(\?|$)/i\<close> matched at the start of \<open>s\<close>: a dot, one of
  the video extensions, then a question mark or the end of the string.
\<close>

definition video_here :: "string \<Rightarrow> bool" where
  "video_here s = list_ex (\<lambda>e. prefix_ci (CHR ''.'' # e) s \<and>
      (case drop (Suc (length e)) s of [] \<Rightarrow> True | c # _ \<Rightarrow> c = CHR ''?'')) video_exts"

text \<open>\<^verbatim>\<open>url.match(/\.(mp4|webm|mov|avi|mkv)(\?|$)/i)\<close>: the pattern matches somewhere.\<close>

fun isVideo :: "string \<Rightarrow> bool" where
  "isVideo [] = False"
| "isVideo (c # cs) = (video_here (c # cs) \<or> isVideo cs)"

text \<open>
  \<^verbatim>\<open>/\.(jpg|jpeg|png|webp|gif|mp4|webm|mov|avi|mkv)$/i\<close> matched at the start of
  \<open>s\<close>: a dot and one of the extensions, and nothing after it.
\<close>

definition known_here :: "string \<Rightarrow> bool" where
  "known_here s = list_ex (\<lambda>e. prefix_ci (CHR ''.'' # e) s \<and> length s = Suc (length e)) known_exts"

fun has_known_ext :: "string \<Rightarrow> bool" where
  "has_known_ext [] = False"
| "has_known_ext (c # cs) = (known_here (c # cs) \<or> has_known_ext cs)"

text \<open>
  \<^verbatim>\<open>pathname.split('/').filter(Boolean)\<close>: the non-empty pieces between slashes.
  \<open>split_acc\<close> carries the piece being read.
\<close>

fun split_acc :: "string \<Rightarrow> string \<Rightarrow> string list" where
  "split_acc acc [] = (if acc = [] then [] else [acc])"
| "split_acc acc (c # cs) =
     (if c = CHR ''/'' then (if acc = [] then split_acc [] cs else acc # split_acc [] cs)
      else split_acc (acc @ [c]) cs)"

definition segments :: "string \<Rightarrow> string list" where
  "segments p = split_acc [] p"

text \<open>The character class \<^verbatim>\<open>[<>:"/\\|?*]\<close> of the sanitising \<^verbatim>\<open>replace\<close>.\<close>

definition disallowed :: "char \<Rightarrow> bool" where
  "disallowed c = (c \<in> {CHR ''<'', CHR ''>'', CHR '':'', CHR 0x22, CHR ''/'', CHR 0x5C,
                         CHR ''|'', CHR ''?'', CHR ''*''})"

text \<open>\<^verbatim>\<open>filename.replace(/[<>:"/\\|?*]/g, '_')\<close>: every such character becomes an underscore.\<close>

definition sanitize :: "string \<Rightarrow> string" where
  "sanitize s = map (\<lambda>c. if disallowed c then CHR ''_'' else c) s"

text \<open>
  \<^verbatim>\<open>filename.match(/\.[^.]+$/)?.[0]\<close>: the text from the last dot to the end, when at
  least one character follows that dot; \<open>None\<close> when the pattern does not match.
\<close>

fun last_ext :: "string \<Rightarrow> string option" where
  "last_ext [] = None"
| "last_ext (c # cs) =
     (case last_ext cs of
        Some e \<Rightarrow> Some e
      | None \<Rightarrow> (if c = CHR ''.'' \<and> cs \<noteq> [] \<and> CHR ''.'' \<notin> set cs then Some (c # cs) else None))"

text \<open>
  \<^verbatim>\<open>s.slice(0, n)\<close>: a negative end index counts from the end of the string (and not
  below zero).
\<close>

definition slice0 :: "int \<Rightarrow> string \<Rightarrow> string" where
  "slice0 n s = (if n < 0 then take (nat (int (length s) + n)) s else take (nat n) s)"

section \<open>Filename derivation\<close>

text \<open>
  \<^verbatim>\<open>extractFilename(url)\<close>.  The platform's URL parser is not part of the repository:
  the first argument is the value of \<^verbatim>\<open>new URL(url).pathname\<close>, \<open>None\<close> when the
  constructor throws.  The second argument is the reading of \<^verbatim>\<open>Date.now()\<close> used by
  the \<^verbatim>\<open>catch\<close> branch.  With no path segment \<^verbatim>\<open>filename\<close> is \<^verbatim>\<open>undefined\<close>, the
  first \<^verbatim>\<open>filename.match\<close> throws, and the \<^verbatim>\<open>catch\<close> branch returns the fallback name.
\<close>

definition fallback_name :: "nat \<Rightarrow> string" where
  "fallback_name t = ''media_'' @ dec t @ ''.jpg''"

definition default_ext :: "string \<Rightarrow> string" where
  "default_ext url = (if isVideo url then ''.mp4'' else ''.jpg'')"

definition add_ext :: "string \<Rightarrow> string \<Rightarrow> string" where
  "add_ext url filename =
     (if \<not> has_known_ext filename then
        (if \<not> (CHR ''.'' \<in> set filename) then filename @ default_ext url else filename)
      else filename)"

definition limit_length :: "string \<Rightarrow> string \<Rightarrow> string" where
  "limit_length url filename =
     (if length filename > 200 then
        (let ext = (case last_ext filename of Some e \<Rightarrow> e | None \<Rightarrow> default_ext url)
         in slice0 (200 - int (length ext)) filename @ ext)
      else filename)"

definition extractFilename :: "string option \<Rightarrow> nat \<Rightarrow> string \<Rightarrow> string" where
  "extractFilename parsed t url =
     (case parsed of
        None \<Rightarrow> fallback_name t
      | Some p \<Rightarrow>
          (case segments p of
             [] \<Rightarrow> fallback_name t
           | s # ss \<Rightarrow> limit_length url (sanitize (add_ext url (last (s # ss))))))"

section \<open>Data model\<close>

datatype item_status = Queued | Downloading | Completed | Failed

text \<open>
  The object that \<^verbatim>\<open>addToQueue\<close> builds for one input item.  \<open>error\<close> and
  \<open>downloadId\<close> are properties that the object literal does not have: they are
  \<open>None\<close> (\<^verbatim>\<open>undefined\<close>) until some code assigns them.
\<close>

record item =
  item_id :: string
  url :: string
  filename :: string
  subfolder :: string
  retries :: int
  status :: item_status
  error :: "string option"
  downloadId :: "nat option"

text \<open>
  An input item of \<^verbatim>\<open>addToQueue\<close>; an absent property is \<open>None\<close>.  The operator
  \<^verbatim>\<open>||\<close> takes its right operand when the left one is falsy: absent, or the empty
  string.
\<close>

record raw_item =
  raw_id :: "string option"
  raw_url :: string
  raw_filename :: "string option"
  raw_subfolder :: "string option"

text \<open>
  What the platform answers while one input item is mapped: the clock when the id is
  built, the pathname of the url, and the clock when \<^verbatim>\<open>extractFilename\<close> builds its
  fallback name.  The two readings of the clock are two calls of \<^verbatim>\<open>Date.now()\<close>.
\<close>

record platform =
  now :: nat
  pathname :: "string option"
  now_fallback :: nat

definition or_string :: "string option \<Rightarrow> string \<Rightarrow> string" where
  "or_string v d = (case v of None \<Rightarrow> d | Some s \<Rightarrow> (if s = [] then d else s))"

text \<open>For a number, \<^verbatim>\<open>||\<close> takes the default when the value is absent or zero.\<close>

definition or_number :: "int option \<Rightarrow> int \<Rightarrow> int" where
  "or_number v d = (case v of None \<Rightarrow> d | Some n \<Rightarrow> (if n = 0 then d else n))"

text \<open>
  The argument of \<^verbatim>\<open>init\<close>.  A callback is modelled by whether it is given: the
  manager only tests it and calls it.
\<close>

record options =
  opt_maxConcurrent :: "int option"
  opt_downloadDelay :: "int option"
  opt_retryAttempts :: "int option"
  opt_basePath :: "string option"
  opt_onProgress :: bool
  opt_onComplete :: bool
  opt_onError :: bool
  opt_onFileStart :: bool

text \<open>The object returned by \<^verbatim>\<open>getProgress\<close>.\<close>

record snapshot =
  total :: nat
  queued :: nat
  downloading :: nat
  completed_count :: nat
  failed_count :: nat
  failedItems :: "string list"
  snap_isPaused :: bool
  snap_isCancelled :: bool

text \<open>
  What an observer sees of the four collections when the progress callback runs: the
  collections themselves (as references to item objects) and the number of items passed
  to \<^verbatim>\<open>addToQueue\<close> so far.
\<close>

record view =
  v_queue :: "nat list"
  v_active :: "nat list"
  v_completed :: "nat list"
  v_failed :: "nat list"
  v_enqueued :: nat

text \<open>
  The calls that the manager makes to its collaborators: the four callbacks and the two
  primitives of the platform, \<^verbatim>\<open>chrome.downloads.download\<close> (with the url and the file
  path) and \<^verbatim>\<open>chrome.downloads.cancel\<close> (with a download handle).
\<close>

datatype call =
    ProgressCb snapshot view
  | CompleteCb snapshot
  | ErrorCb nat string
  | FileStartCb string
  | ChromeDownload string string
  | ChromeCancel nat

text \<open>
  An invocation of \<^verbatim>\<open>processItem\<close> is suspended at one of its three \<^verbatim>\<open>await\<close>s: on
  \<^verbatim>\<open>downloadFile\<close>, on \<^verbatim>\<open>waitForDownload\<close> (with the handle), or on the final
  \<^verbatim>\<open>sleep(this.downloadDelay)\<close>.
\<close>

datatype stage = Starting | Waiting nat | Delaying

text \<open>
  An invocation of \<^verbatim>\<open>start\<close> is suspended at one of its three \<^verbatim>\<open>sleep\<close>s: in the
  pause loop, at the end of the main loop, or in the final loop that waits for the
  active downloads.
\<close>

datatype driver = PauseWait | Poll | Drain

text \<open>
  The manager object, together with what lives outside it in the single-threaded event
  loop: the item objects (\<open>objs\<close>; a reference is a position in this list), the
  suspended invocations of \<^verbatim>\<open>processItem\<close> (\<open>tasks\<close>, each with the reference of its
  item) and of \<^verbatim>\<open>start\<close> (\<open>drivers\<close>), and the calls made so far (\<open>trace\<close>).
\<close>

record manager =
  queue :: "nat list"
  active :: "nat list"
  completed :: "nat list"
  failed :: "nat list"
  maxConcurrent :: int
  downloadDelay :: int
  retryAttempts :: int
  isPaused :: bool
  isCancelled :: bool
  onProgress :: bool
  onComplete :: bool
  onError :: bool
  onFileStart :: bool
  basePath :: string
  objs :: "item list"
  tasks :: "(nat \<times> stage) list"
  drivers :: "driver list"
  trace :: "call list"

text \<open>The constructor.\<close>

definition new_manager :: manager where
  "new_manager = \<lparr> queue = [], active = [], completed = [], failed = [],
     maxConcurrent = 3, downloadDelay = 200, retryAttempts = 3,
     isPaused = False, isCancelled = False,
     onProgress = False, onComplete = False, onError = False, onFileStart = False,
     basePath = ''Civitai'', objs = [], tasks = [], drivers = [], trace = [] \<rparr>"

text \<open>\<^verbatim>\<open>init(options)\<close>.\<close>

definition init :: "options \<Rightarrow> manager \<Rightarrow> manager" where
  "init opts m = m\<lparr>
     maxConcurrent := or_number (opt_maxConcurrent opts) 3,
     downloadDelay := or_number (opt_downloadDelay opts) 200,
     retryAttempts := or_number (opt_retryAttempts opts) 3,
     basePath := or_string (opt_basePath opts) ''Civitai'',
     onProgress := opt_onProgress opts,
     onComplete := opt_onComplete opts,
     onError := opt_onError opts,
     onFileStart := opt_onFileStart opts,
     queue := [], active := [], completed := [], failed := [],
     isPaused := False, isCancelled := False \<rparr>"

section \<open>Operations of the manager\<close>

text \<open>\<^verbatim>\<open>getProgress()\<close>, and what an observer sees of the collections at that moment.\<close>

definition getProgress :: "manager \<Rightarrow> snapshot" where
  "getProgress s = \<lparr>
     total = length (queue s) + length (active s) + length (completed s) + length (failed s),
     queued = length (queue s),
     downloading = length (active s),
     completed_count = length (completed s),
     failed_count = length (failed s),
     failedItems = map (\<lambda>r. filename (objs s ! r)) (failed s),
     snap_isPaused = isPaused s,
     snap_isCancelled = isCancelled s \<rparr>"

definition getView :: "manager \<Rightarrow> view" where
  "getView s = \<lparr> v_queue = queue s, v_active = active s, v_completed = completed s,
     v_failed = failed s, v_enqueued = length (objs s) \<rparr>"

definition record_call :: "call \<Rightarrow> manager \<Rightarrow> manager" where
  "record_call c s = s\<lparr>trace := trace s @ [c]\<rparr>"

text \<open>\<^verbatim>\<open>emitProgress()\<close> and \<^verbatim>\<open>emitComplete()\<close>.\<close>

definition emitProgress :: "manager \<Rightarrow> manager" where
  "emitProgress s = (if onProgress s then record_call (ProgressCb (getProgress s) (getView s)) s else s)"

definition emitComplete :: "manager \<Rightarrow> manager" where
  "emitComplete s = (if onComplete s then record_call (CompleteCb (getProgress s)) s else s)"

text \<open>
  \<^verbatim>\<open>addToQueue(items)\<close>.  Mapping one input item asks the platform for the time
  (\<^verbatim>\<open>Date.now()\<close>) when an id is generated, for the pathname of the item's URL
  (\<^verbatim>\<open>new URL(url).pathname\<close>, \<open>None\<close> when the constructor throws), and for the time
  once more when a fallback filename is built.  Each input item comes paired with these
  answers.
\<close>

definition generated_id :: "nat \<Rightarrow> nat \<Rightarrow> string" where
  "generated_id t i = ''item_'' @ dec t @ ''_'' @ dec i"

definition make_item :: "nat \<times> platform \<times> raw_item \<Rightarrow> item" where
  "make_item = (\<lambda>(index, env, it). \<lparr>
     item_id = or_string (raw_id it) (generated_id (now env) index),
     url = raw_url it,
     filename = or_string (raw_filename it) (extractFilename (pathname env) (now_fallback env) (raw_url it)),
     subfolder = or_string (raw_subfolder it) [],
     retries = 0,
     status = Queued,
     error = None,
     downloadId = None \<rparr>)"

definition downloadItems :: "(platform \<times> raw_item) list \<Rightarrow> item list" where
  "downloadItems items = map make_item (List.enumerate 0 items)"

definition addToQueue :: "(platform \<times> raw_item) list \<Rightarrow> manager \<Rightarrow> nat \<times> manager" where
  "addToQueue items s =
     (let new = downloadItems items;
          refs = [length (objs s) ..< length (objs s) + length new];
          s1 = s\<lparr>objs := objs s @ new, queue := queue s @ refs\<rparr>
      in (length new, emitProgress s1))"

text \<open>\<^verbatim>\<open>buildFilePath(item)\<close>: the parts joined by a slash.\<close>

fun join_slash :: "string list \<Rightarrow> string" where
  "join_slash [] = []"
| "join_slash [p] = p"
| "join_slash (p # q # ps) = p @ ''/'' @ join_slash (q # ps)"

definition buildFilePath :: "manager \<Rightarrow> item \<Rightarrow> string" where
  "buildFilePath s it =
     join_slash ([basePath s] @ (if subfolder it \<noteq> [] then [subfolder it] else []) @ [filename it])"

definition modify :: "nat \<Rightarrow> (item \<Rightarrow> item) \<Rightarrow> manager \<Rightarrow> manager" where
  "modify r f s = s\<lparr>objs := (objs s)[r := f (objs s ! r)]\<rparr>"

text \<open>
  \<^verbatim>\<open>processItem(item)\<close> from its call to its first \<^verbatim>\<open>await\<close>: the part that runs inside
  the slot-filling loop of \<^verbatim>\<open>start\<close>.
\<close>

definition processItem_begin :: "nat \<Rightarrow> manager \<Rightarrow> manager" where
  "processItem_begin r s =
     (let s1 = emitProgress (modify r (\<lambda>it. it\<lparr>status := Downloading\<rparr>) s);
          s2 = (if onFileStart s1 then record_call (FileStartCb (filename (objs s1 ! r))) s1 else s1);
          s3 = record_call (ChromeDownload (url (objs s2 ! r)) (buildFilePath s2 (objs s2 ! r))) s2
      in s3\<lparr>tasks := tasks s3 @ [(r, Starting)]\<rparr>)"

text \<open>
  The \<^verbatim>\<open>finally\<close> block: \<^verbatim>\<open>findIndex\<close> looks for the first active item with the same
  id, \<^verbatim>\<open>splice\<close> removes it; then progress is emitted and the invocation sleeps.
\<close>

fun remove_by_id :: "item list \<Rightarrow> string \<Rightarrow> nat list \<Rightarrow> nat list" where
  "remove_by_id os i [] = []"
| "remove_by_id os i (r # rs) = (if item_id (os ! r) = i then rs else r # remove_by_id os i rs)"

definition finally_block :: "nat \<Rightarrow> stage \<Rightarrow> manager \<Rightarrow> manager" where
  "finally_block r st s =
     (let s1 = emitProgress (s\<lparr>active := remove_by_id (objs s) (item_id (objs s ! r)) (active s)\<rparr>)
      in s1\<lparr>tasks := remove1 (r, st) (tasks s1) @ [(r, Delaying)]\<rparr>)"

text \<open>The end of the \<^verbatim>\<open>try\<close> block, after \<^verbatim>\<open>waitForDownload\<close> has resolved.\<close>

definition on_success :: "nat \<Rightarrow> stage \<Rightarrow> manager \<Rightarrow> manager" where
  "on_success r st s =
     finally_block r st ((modify r (\<lambda>it. it\<lparr>status := Completed\<rparr>) s)\<lparr>completed := completed s @ [r]\<rparr>)"

text \<open>The \<^verbatim>\<open>catch\<close> block, with the message of the error caught.\<close>

definition catch_block :: "nat \<Rightarrow> string \<Rightarrow> manager \<Rightarrow> manager" where
  "catch_block r msg s =
     (if retries (objs s ! r) < retryAttempts s then
        (modify r (\<lambda>it. it\<lparr>retries := retries it + 1, status := Queued\<rparr>) s)\<lparr>queue := r # queue s\<rparr>
      else
        (let s1 = (modify r (\<lambda>it. it\<lparr>status := Failed, error := Some msg\<rparr>) s)\<lparr>failed := failed s @ [r]\<rparr>
         in if onError s1 then record_call (ErrorCb r msg) s1 else s1))"

definition on_failure :: "nat \<Rightarrow> stage \<Rightarrow> string \<Rightarrow> manager \<Rightarrow> manager" where
  "on_failure r st msg s = finally_block r st (catch_block r msg s)"

text \<open>
  What the callback of \<^verbatim>\<open>chrome.downloads.download\<close> receives: either
  \<^verbatim>\<open>chrome.runtime.lastError\<close> is set (with its message), or a download id that may be
  absent.  \<^verbatim>\<open>downloadFile\<close> rejects on an error and on a falsy id (absent or zero).
\<close>

datatype start_result = LastError string | DownloadId "nat option"

definition downloadFile :: "start_result \<Rightarrow> string + nat" where
  "downloadFile res =
     (case res of
        LastError m \<Rightarrow> Inl m
      | DownloadId None \<Rightarrow> Inl ''Download failed to start''
      | DownloadId (Some h) \<Rightarrow> (if h \<noteq> 0 then Inr h else Inl ''Download failed to start''))"

text \<open>
  What the callback of \<^verbatim>\<open>chrome.downloads.search\<close> receives in \<^verbatim>\<open>waitForDownload\<close>: no
  download, or the first one with its state and its optional error text.
\<close>

datatype dl_state = In_progress | Complete | Interrupted | Other_state

datatype search_result = NotFound | Found dl_state "string option"

text \<open>
  \<^verbatim>\<open>processItem\<close> resumed after \<^verbatim>\<open>await this.downloadFile(...)\<close>, and after one poll of
  \<^verbatim>\<open>waitForDownload\<close>; a download still in progress is polled again later.
\<close>

definition resume_started :: "nat \<Rightarrow> start_result \<Rightarrow> manager \<Rightarrow> manager" where
  "resume_started r res s =
     (case downloadFile res of
        Inl m \<Rightarrow> on_failure r Starting m s
      | Inr h \<Rightarrow>
          (if h \<noteq> 0 then s\<lparr>tasks := remove1 (r, Starting) (tasks s) @ [(r, Waiting h)]\<rparr>
           else on_failure r Starting ''Failed to initiate download'' s))"

definition resume_polled :: "nat \<Rightarrow> nat \<Rightarrow> search_result \<Rightarrow> manager \<Rightarrow> manager" where
  "resume_polled r h res s =
     (case res of
        NotFound \<Rightarrow> on_failure r (Waiting h) ''Download not found'' s
      | Found Complete e \<Rightarrow> on_success r (Waiting h) s
      | Found Interrupted e \<Rightarrow> on_failure r (Waiting h) (or_string e ''Download interrupted'') s
      | Found In_progress e \<Rightarrow> s
      | Found Other_state e \<Rightarrow> s)"

text \<open>\<^verbatim>\<open>pause()\<close>, \<^verbatim>\<open>resume()\<close> and \<^verbatim>\<open>cancel()\<close>.\<close>

definition pause :: "manager \<Rightarrow> manager" where
  "pause s = s\<lparr>isPaused := True\<rparr>"

definition resume :: "manager \<Rightarrow> manager" where
  "resume s = s\<lparr>isPaused := False\<rparr>"

definition cancel_calls :: "manager \<Rightarrow> call list" where
  "cancel_calls s =
     List.map_filter (\<lambda>r. case downloadId (objs s ! r) of
                             None \<Rightarrow> None
                           | Some h \<Rightarrow> (if h \<noteq> 0 then Some (ChromeCancel h) else None)) (active s)"

definition cancel :: "manager \<Rightarrow> manager" where
  "cancel s =
     (let s1 = s\<lparr>isCancelled := True, isPaused := False\<rparr>;
          s2 = s1\<lparr>trace := trace s1 @ cancel_calls s1\<rparr>
      in s2\<lparr>queue := [], active := []\<rparr>)"

section \<open>The driving loop\<close>

text \<open>
  The slot-filling loop of \<^verbatim>\<open>start\<close>:
  \<^verbatim>\<open>while (this.active.length < this.maxConcurrent && this.queue.length > 0)\<close>, with
  \<^verbatim>\<open>shift\<close>, \<^verbatim>\<open>push\<close> and the call of \<^verbatim>\<open>processItem\<close>, which returns at its first
  \<^verbatim>\<open>await\<close>.
\<close>

function fill :: "manager \<Rightarrow> manager" where
  "fill s =
     (if int (length (active s)) < maxConcurrent s \<and> queue s \<noteq> [] then
        fill (processItem_begin (hd (queue s))
               (s\<lparr>queue := tl (queue s), active := active s @ [hd (queue s)]\<rparr>))
      else s)"
  by pat_completeness auto
termination
  by (relation "measure (\<lambda>s. length (queue s))")
     (auto simp: processItem_begin_def Let_def emitProgress_def record_call_def modify_def)

declare fill.simps [simp del]

text \<open>
  \<^verbatim>\<open>start()\<close> between two suspensions.  Each function returns the new state and where
  the invocation sleeps next (\<open>None\<close>: it has returned).  \<open>after_loop\<close> is the code
  behind the main loop, \<open>pause_check\<close> the pause loop and what follows it inside the main
  loop, \<open>loop_top\<close> the test of the main loop.
\<close>

definition after_loop :: "manager \<Rightarrow> manager \<times> driver option" where
  "after_loop s =
     (if active s \<noteq> [] \<and> \<not> isCancelled s then (s, Some Drain)
      else ((if \<not> isCancelled s then emitComplete s else s), None))"

definition pause_check :: "manager \<Rightarrow> manager \<times> driver option" where
  "pause_check s =
     (if isPaused s \<and> \<not> isCancelled s then (s, Some PauseWait)
      else if isCancelled s then after_loop s
      else (fill s, Some Poll))"

definition loop_top :: "manager \<Rightarrow> manager \<times> driver option" where
  "loop_top s =
     (if \<not> isCancelled s \<and> (queue s \<noteq> [] \<or> active s \<noteq> []) then pause_check s
      else after_loop s)"

definition start_body :: "manager \<Rightarrow> manager \<times> driver option" where
  "start_body s =
     (if queue s = [] \<and> active s = [] then (emitComplete s, None)
      else loop_top (s\<lparr>isCancelled := False, isPaused := False\<rparr>))"

definition start :: "manager \<Rightarrow> manager" where
  "start s =
     (case start_body s of
        (s1, None) \<Rightarrow> s1
      | (s1, Some d) \<Rightarrow> s1\<lparr>drivers := drivers s1 @ [d]\<rparr>)"

text \<open>The timer of the \<open>k\<close>-th suspended invocation of \<^verbatim>\<open>start\<close> fires.\<close>

definition continue :: "driver \<Rightarrow> manager \<Rightarrow> manager \<times> driver option" where
  "continue d s = (case d of PauseWait \<Rightarrow> pause_check s | Poll \<Rightarrow> loop_top s | Drain \<Rightarrow> after_loop s)"

definition driver_wake :: "nat \<Rightarrow> manager \<Rightarrow> manager" where
  "driver_wake k s =
     (if k < length (drivers s) then
        (case continue (drivers s ! k) s of
           (s1, None) \<Rightarrow> s1\<lparr>drivers := take k (drivers s1) @ drop (Suc k) (drivers s1)\<rparr>
         | (s1, Some d) \<Rightarrow> s1\<lparr>drivers := (drivers s1)[k := d]\<rparr>)
      else s)"

section \<open>Runs\<close>

text \<open>
  What can happen during a run, one event per turn of the event loop: a call of an
  operation of the manager, or the resumption of a suspended invocation.  An event that
  names an invocation that is not suspended there changes nothing.
\<close>

datatype event =
    AddToQueue "(platform \<times> raw_item) list"
  | Start
  | Pause
  | Resume
  | Cancel
  | DriverWake nat
  | DownloadStarted nat start_result
  | DownloadPolled nat nat search_result
  | DelayElapsed nat

definition step :: "event \<Rightarrow> manager \<Rightarrow> manager" where
  "step ev s =
     (case ev of
        AddToQueue items \<Rightarrow> snd (addToQueue items s)
      | Start \<Rightarrow> start s
      | Pause \<Rightarrow> pause s
      | Resume \<Rightarrow> resume s
      | Cancel \<Rightarrow> cancel s
      | DriverWake k \<Rightarrow> driver_wake k s
      | DownloadStarted r res \<Rightarrow> (if (r, Starting) \<in> set (tasks s) then resume_started r res s else s)
      | DownloadPolled r h res \<Rightarrow> (if (r, Waiting h) \<in> set (tasks s) then resume_polled r h res s else s)
      | DelayElapsed r \<Rightarrow> (if (r, Delaying) \<in> set (tasks s) then s\<lparr>tasks := remove1 (r, Delaying) (tasks s)\<rparr> else s))"

text \<open>
  A run begins with \<^verbatim>\<open>init\<close> on a newly constructed manager; the events follow.  Then
  \<open>length (objs s)\<close> is the number of items passed to \<^verbatim>\<open>addToQueue\<close> since \<^verbatim>\<open>init\<close>.
\<close>

definition run :: "options \<Rightarrow> event list \<Rightarrow> manager" where
  "run opts evs = fold step evs (init opts new_manager)"

text \<open>
  The program has one manager and calls \<^verbatim>\<open>init\<close> on it for every download.  A later
  run begins with \<^verbatim>\<open>init\<close> on the manager as the events before have left it: the item
  objects, the suspended invocations and the calls made so far are still there.  Then
  \<open>length (objs m)\<close> items had been passed to \<^verbatim>\<open>addToQueue\<close> before this \<^verbatim>\<open>init\<close>.
\<close>

definition run_from :: "manager \<Rightarrow> options \<Rightarrow> event list \<Rightarrow> manager" where
  "run_from m opts evs = fold step evs (init opts m)"

text \<open>
  A session of the program: the manager is constructed once, and then, any number of
  times, \<^verbatim>\<open>init\<close> is called and events follow.
\<close>

definition session :: "(options \<times> event list) list \<Rightarrow> manager" where
  "session hs = fold (\<lambda>(opts, evs) m. run_from m opts evs) hs new_manager"

section \<open>Notions used in the statements\<close>

subsection \<open>What has been observed\<close>

text \<open>The views that the progress callback has been given so far.\<close>

fun views_of :: "call list \<Rightarrow> view list" where
  "views_of [] = []"
| "views_of (ProgressCb sn v # cs) = v # views_of cs"
| "views_of (c # cs) = views_of cs"

definition progress_views :: "manager \<Rightarrow> view list" where
  "progress_views s = views_of (trace s)"

text \<open>The views that the progress callback has been given since the manager was as in \<open>m\<close>.\<close>

definition views_since :: "manager \<Rightarrow> manager \<Rightarrow> view list" where
  "views_since m s = drop (length (progress_views m)) (progress_views s)"

text \<open>
  The sum of the sizes of the four collections in a view, and the statement that every
  item enqueued since \<^verbatim>\<open>init\<close> is in exactly one of the four collections of the view,
  when \<open>b\<close> items had been enqueued before that \<^verbatim>\<open>init\<close>: the items enqueued since
  have the references from \<open>b\<close> on.
\<close>

definition view_total :: "view \<Rightarrow> nat" where
  "view_total v = length (v_queue v) + length (v_active v) + length (v_completed v) + length (v_failed v)"

definition view_exact :: "nat \<Rightarrow> view \<Rightarrow> bool" where
  "view_exact b v \<longleftrightarrow>
     mset (v_queue v) + mset (v_active v) + mset (v_completed v) + mset (v_failed v) = mset [b..<v_enqueued v]"

text \<open>The handles that \<^verbatim>\<open>chrome.downloads.cancel\<close> has been called with.\<close>

fun aborts :: "call list \<Rightarrow> nat list" where
  "aborts [] = []"
| "aborts (ChromeCancel h # cs) = h # aborts cs"
| "aborts (c # cs) = aborts cs"

text \<open>The urls that \<^verbatim>\<open>chrome.downloads.download\<close> has been called with.\<close>

fun downloads :: "call list \<Rightarrow> string list" where
  "downloads [] = []"
| "downloads (ChromeDownload u p # cs) = u # downloads cs"
| "downloads (c # cs) = downloads cs"

text \<open>The cumulative number of items passed to \<^verbatim>\<open>addToQueue\<close> by a list of events.\<close>

fun enqueued_count :: "event list \<Rightarrow> nat" where
  "enqueued_count [] = 0"
| "enqueued_count (AddToQueue items # evs) = length items + enqueued_count evs"
| "enqueued_count (ev # evs) = enqueued_count evs"

subsection \<open>Invariants\<close>

text \<open>
  The items whose invocation of \<^verbatim>\<open>processItem\<close> has not reached its \<^verbatim>\<open>catch\<close> or the
  end of its \<^verbatim>\<open>try\<close> block yet: it is suspended on \<^verbatim>\<open>downloadFile\<close> or on
  \<^verbatim>\<open>waitForDownload\<close>.
\<close>

definition pending :: "(nat \<times> stage) list \<Rightarrow> nat multiset" where
  "pending ts = mset (map fst (filter (\<lambda>t. snd t \<noteq> Delaying) ts))"

definition in_flight :: "manager \<Rightarrow> nat multiset" where
  "in_flight s = pending (tasks s)"

text \<open>
  The items that are accounted for apart from the active collection: queued, held by an
  invocation of \<^verbatim>\<open>processItem\<close> that has not settled, completed or failed.
\<close>

definition accounted :: "manager \<Rightarrow> nat multiset" where
  "accounted s = mset (queue s) + in_flight s + mset (completed s) + mset (failed s)"

text \<open>The id of the item object behind a reference.\<close>

definition id_of :: "manager \<Rightarrow> nat \<Rightarrow> string" where
  "id_of s r = item_id (objs s ! r)"

text \<open>
  The invariant of a run before any \<^verbatim>\<open>cancel\<close>, when \<open>b\<close> items had been enqueued
  before its \<^verbatim>\<open>init\<close>: every item enqueued since is accounted for exactly once, the
  active items are among them, and the ids of the active items are the ids of the items
  whose invocation has not settled (\<^verbatim>\<open>findIndex\<close> looks items up by id).  The second
  part is the same for what the progress callback has seen after the first \<open>n\<close> views.
\<close>

definition conserved :: "nat \<Rightarrow> manager \<Rightarrow> bool" where
  "conserved b s \<longleftrightarrow>
     b \<le> length (objs s)
     \<and> accounted s = mset [b..<length (objs s)]
     \<and> set (active s) \<subseteq> {b..<length (objs s)}
     \<and> image_mset (id_of s) (mset (active s)) = image_mset (id_of s) (in_flight s)"

definition views_ok :: "nat \<Rightarrow> nat \<Rightarrow> manager \<Rightarrow> bool" where
  "views_ok b n s \<longleftrightarrow>
     (\<forall>v\<in>set (drop n (progress_views s)). view_total v + b = v_enqueued v)
     \<and> (distinct (map item_id (drop b (objs s))) \<longrightarrow>
          (\<forall>v\<in>set (drop n (progress_views s)). view_exact b v))"

definition cancel_free_inv :: "nat \<Rightarrow> nat \<Rightarrow> manager \<Rightarrow> bool" where
  "cancel_free_inv b n s \<longleftrightarrow> conserved b s \<and> views_ok b n s"

text \<open>
  Invariants of every run, cancelled or not: no item is accounted for twice and every
  reference is the reference of an item object; the retry counters are within bounds and
  no item object has a \<^verbatim>\<open>downloadId\<close> property; the active collection and the views
  of the progress callback are within the slots.
\<close>

definition valid_refs :: "manager \<Rightarrow> bool" where
  "valid_refs s \<longleftrightarrow>
     accounted s \<subseteq># mset [0..<length (objs s)] \<and> set (active s) \<subseteq> {..<length (objs s)}"

definition retries_bounded :: "int \<Rightarrow> manager \<Rightarrow> bool" where
  "retries_bounded R s \<longleftrightarrow>
     retryAttempts s = R
     \<and> (\<forall>it\<in>set (objs s). 0 \<le> retries it \<and> retries it \<le> max 0 R \<and> downloadId it = None)"

definition slots_bounded :: "int \<Rightarrow> manager \<Rightarrow> bool" where
  "slots_bounded M s \<longleftrightarrow>
     maxConcurrent s = M
     \<and> int (length (active s)) \<le> max 0 M
     \<and> (\<forall>v\<in>set (progress_views s). int (length (v_active v)) \<le> max 0 M)"

subsection \<open>The order of the queue\<close>

text \<open>
  An item has been retried when its retry counter is positive: the counter is 0 in
  \<^verbatim>\<open>addToQueue\<close>, and the \<^verbatim>\<open>catch\<close> block increments it when it puts the item back
  into the queue.  The other items of the queue have never been started.
\<close>

definition retried :: "manager \<Rightarrow> nat \<Rightarrow> bool" where
  "retried s r \<longleftrightarrow> 0 < retries (objs s ! r)"

definition never_started :: "manager \<Rightarrow> nat list" where
  "never_started s = filter (\<lambda>r. \<not> retried s r) (queue s)"

text \<open>
  References are given in the order of enqueueing.  The reference that the first of
  the items never started has, when these are the items enqueued last:
\<close>

definition first_waiting :: "manager \<Rightarrow> nat" where
  "first_waiting s = length (objs s) - length (never_started s)"

text \<open>
  First in, first out, with priority for retries.  The queue holds the retried items in
  front of the items never started; the items never started are the items enqueued
  last, in the order of enqueueing; and every item that has left the queue (and is back
  in it as a retried item, or active, completed or failed) was enqueued before every
  item never started.
\<close>

definition fifo_order :: "manager \<Rightarrow> bool" where
  "fifo_order s \<longleftrightarrow>
     queue s = filter (retried s) (queue s) @ never_started s
     \<and> never_started s = [first_waiting s ..< length (objs s)]
     \<and> list_all (\<lambda>r. r < first_waiting s)
          (filter (retried s) (queue s) @ active s @ completed s @ failed s)"

text \<open>
  The invariant behind it, with the reference \<open>k\<close> of the first item never started: it
  also says that the items never started have the retry counter 0, that no retry
  counter is negative, and that every suspended invocation of \<^verbatim>\<open>processItem\<close> holds
  an item enqueued before \<open>k\<close>.
\<close>

definition fifo_inv :: "nat \<Rightarrow> manager \<Rightarrow> bool" where
  "fifo_inv k s \<longleftrightarrow>
     k \<le> length (objs s)
     \<and> (\<exists>R. queue s = R @ [k ..< length (objs s)] \<and> (\<forall>r\<in>set R. r < k \<and> 0 < retries (objs s ! r)))
     \<and> (\<forall>r. k \<le> r \<and> r < length (objs s) \<longrightarrow> retries (objs s ! r) = 0)
     \<and> (\<forall>r<length (objs s). 0 \<le> retries (objs s ! r))
     \<and> (\<forall>r\<in>fst ` set (tasks s) \<union> set (active s) \<union> set (completed s) \<union> set (failed s). r < k)"

subsection \<open>Inputs and runs of the examples\<close>

text \<open>
  Options with every callback given and the defaults for the rest; the same with the
  error callback only; the same with a single slot.
\<close>

definition example_options :: options where
  "example_options = \<lparr> opt_maxConcurrent = None, opt_downloadDelay = None,
     opt_retryAttempts = None, opt_basePath = None, opt_onProgress = True,
     opt_onComplete = True, opt_onError = True, opt_onFileStart = True \<rparr>"

definition errors_only :: options where
  "errors_only = example_options\<lparr>opt_onProgress := False, opt_onComplete := False,
     opt_onFileStart := False\<rparr>"

definition single_slot :: options where
  "single_slot = example_options\<lparr>opt_maxConcurrent := Some 1\<rparr>"

text \<open>
  An input item with only a url, given with the pathname of that url, and an input item
  as the background script builds it, with an id and a filename.  For both the clock
  reads 1700000000000 at the id and 1700000000001 at the fallback filename.
\<close>

definition plain_item :: "string \<Rightarrow> string \<Rightarrow> platform \<times> raw_item" where
  "plain_item u p = (\<lparr> now = 1700000000000, pathname = Some p, now_fallback = 1700000000001 \<rparr>,
     \<lparr> raw_id = None, raw_url = u, raw_filename = None, raw_subfolder = None \<rparr>)"

definition named_item :: "string \<Rightarrow> string \<Rightarrow> string \<Rightarrow> platform \<times> raw_item" where
  "named_item i u f = (\<lparr> now = 1700000000000, pathname = None, now_fallback = 1700000000001 \<rparr>,
     \<lparr> raw_id = Some i, raw_url = u, raw_filename = Some f, raw_subfolder = Some [] \<rparr>)"

text \<open>
  Two items with different ids are enqueued, the first one completes and the second one
  fails to start.
\<close>

definition example_run :: "event list" where
  "example_run =
     [AddToQueue [named_item ''img_0'' ''https://cdn.example/a.jpg'' ''a.jpg'',
                  named_item ''img_1'' ''https://cdn.example/b.jpg'' ''b.jpg''],
      Start,
      DownloadStarted 0 (DownloadId (Some 7)),
      DownloadPolled 0 7 (Found Complete None),
      DownloadStarted 1 (LastError ''network'')]"

text \<open>
  Two items are enqueued with the same id, both become active, and the second one
  completes.
\<close>

definition duplicate_id_run :: "event list" where
  "duplicate_id_run =
     [AddToQueue [named_item ''img_0'' ''https://cdn.example/a.jpg'' ''a.jpg'',
                  named_item ''img_0'' ''https://cdn.example/b.jpg'' ''b.jpg''],
      Start,
      DownloadStarted 1 (DownloadId (Some 8)),
      DownloadPolled 1 8 (Found Complete None)]"

text \<open>
  A second download after the first example run: \<^verbatim>\<open>init\<close> has been called again, two
  more items are enqueued under the ids of the first two, the first of them completes
  and the second one fails to start.
\<close>

definition second_run :: "event list" where
  "second_run =
     [AddToQueue [named_item ''img_0'' ''https://cdn.example/c.jpg'' ''c.jpg'',
                  named_item ''img_1'' ''https://cdn.example/d.jpg'' ''d.jpg''],
      Start,
      DownloadStarted 2 (DownloadId (Some 9)),
      DownloadPolled 2 9 (Found Complete None),
      DownloadStarted 3 (LastError ''network'')]"

text \<open>
  Two items are enqueued and started and the platform has answered the second one with
  the download handle 8: both downloads are unsettled.  In the download after that, one
  item is enqueued and started, and the download with the handle 8 completes.
\<close>

definition unsettled_run :: "event list" where
  "unsettled_run =
     [AddToQueue [named_item ''img_0'' ''https://cdn.example/a.jpg'' ''a.jpg'',
                  named_item ''img_1'' ''https://cdn.example/b.jpg'' ''b.jpg''],
      Start,
      DownloadStarted 1 (DownloadId (Some 8))]"

definition next_run :: "event list" where
  "next_run =
     [AddToQueue [named_item ''img_0'' ''https://cdn.example/c.jpg'' ''c.jpg''],
      Start,
      DownloadPolled 1 8 (Found Complete None)]"


text \<open>
  One item is enqueued and started, and the platform has answered with the download
  handle 7.
\<close>

definition cancel_example :: "event list" where
  "cancel_example =
     [AddToQueue [named_item ''img_0'' ''https://cdn.example/a.jpg'' ''a.jpg''],
      Start,
      DownloadStarted 0 (DownloadId (Some 7))]"

text \<open>
  Three items are enqueued and started, the third one fails to start three times and is
  started a fourth time, the first one gets the download handle 7, and then the run is
  cancelled with the three of them in flight.  After that, in \<open>settlements\<close>, the
  first download completes and the two others fail to start.
\<close>

definition abandoned_run :: "event list" where
  "abandoned_run =
     [AddToQueue [named_item ''img_0'' ''https://cdn.example/a.jpg'' ''a.jpg'',
                  named_item ''img_1'' ''https://cdn.example/b.jpg'' ''b.jpg'',
                  named_item ''img_2'' ''https://cdn.example/c.jpg'' ''c.jpg''],
      Start,
      DownloadStarted 2 (LastError ''network''), DriverWake 0,
      DownloadStarted 2 (LastError ''network''), DriverWake 0,
      DownloadStarted 2 (LastError ''network''), DriverWake 0,
      DownloadStarted 0 (DownloadId (Some 7)),
      Cancel]"

definition settlements :: "event list" where
  "settlements =
     [DownloadPolled 0 7 (Found Complete None),
      DownloadStarted 1 (LastError ''network''),
      DownloadStarted 2 (LastError ''network'')]"

text \<open>
  With a single slot: three items A, B and C are enqueued, A is started, fails, and the
  loop polls again.
\<close>

definition fifo_run :: "event list" where
  "fifo_run =
     [AddToQueue [named_item ''A'' ''https://cdn.example/a.jpg'' ''a.jpg'',
                  named_item ''B'' ''https://cdn.example/b.jpg'' ''b.jpg'',
                  named_item ''C'' ''https://cdn.example/c.jpg'' ''c.jpg''],
      Start,
      DownloadStarted 0 (LastError ''network''),
      DriverWake 0]"

text \<open>
  How the example goes on: A is started again and completes, the loop polls, B is
  started and completes, and the loop polls once more.
\<close>

definition fifo_rest :: "event list" where
  "fifo_rest =
     [DownloadStarted 0 (DownloadId (Some 7)),
      DownloadPolled 0 7 (Found Complete None),
      DriverWake 0,
      DownloadStarted 1 (DownloadId (Some 8)),
      DownloadPolled 1 8 (Found Complete None),
      DriverWake 0]"

text \<open>
  With a single slot: two items are enqueued, the first one is downloaded, and the loop
  polls again before the delay of the first one has elapsed.
\<close>

definition delay_run :: "event list" where
  "delay_run =
     [AddToQueue [named_item ''img_0'' ''https://cdn.example/a.jpg'' ''a.jpg'',
                  named_item ''img_1'' ''https://cdn.example/b.jpg'' ''b.jpg''],
      Start,
      DownloadStarted 0 (DownloadId (Some 7)),
      DownloadPolled 0 7 (Found Complete None),
      DriverWake 0]"

section \<open>Configuration\<close>

text \<open>
  C10.  \<^verbatim>\<open>init\<close> takes a numeric option that is zero as if it were absent: zero for
  \<^verbatim>\<open>maxConcurrent\<close>, \<^verbatim>\<open>downloadDelay\<close> and \<^verbatim>\<open>retryAttempts\<close> gives 3, 200 and 3, the
  values that absent options give.  So the retry limit is never 0 after \<^verbatim>\<open>init\<close>.
  Whatever the options and the manager, \<^verbatim>\<open>init\<close> leaves the four collections empty and
  both run flags false.
\<close>

theorem init_falsy_coalescing:
  "maxConcurrent (init (opts\<lparr>opt_maxConcurrent := Some 0\<rparr>) m) = 3
   \<and> downloadDelay (init (opts\<lparr>opt_downloadDelay := Some 0\<rparr>) m) = 200
   \<and> retryAttempts (init (opts\<lparr>opt_retryAttempts := Some 0\<rparr>) m) = 3
   \<and> maxConcurrent (init (opts\<lparr>opt_maxConcurrent := None\<rparr>) m) = 3
   \<and> downloadDelay (init (opts\<lparr>opt_downloadDelay := None\<rparr>) m) = 200
   \<and> retryAttempts (init (opts\<lparr>opt_retryAttempts := None\<rparr>) m) = 3
   \<and> retryAttempts (init opts m) \<noteq> 0
   \<and> queue (init opts m) = [] \<and> active (init opts m) = []
   \<and> completed (init opts m) = [] \<and> failed (init opts m) = []
   \<and> \<not> isPaused (init opts m) \<and> \<not> isCancelled (init opts m)"
  by (simp add: init_def or_number_def split: option.split)

section \<open>Properties of the filename derivation\<close>























section \<open>Identifiers assigned at enqueue time\<close>

lemma dec_nonempty: "dec n \<noteq> []"
  by (subst dec.simps) simp

lemma digit_inj: "a < 10 \<Longrightarrow> b < 10 \<Longrightarrow> digit a = digit b \<Longrightarrow> a = b"
  by (simp add: digit_def char_of_eq_iff take_bit_eq_mod)

lemma digit_not_underscore: "d < 10 \<Longrightarrow> digit d \<noteq> CHR ''_''"
  by (simp add: digit_def char_of_eq_iff take_bit_eq_mod)

lemma dec_no_underscore: "CHR ''_'' \<notin> set (dec n)"
proof (induction n rule: dec.induct)
  case (1 n)
  show ?case
  proof (cases "n < 10")
    case True
    then show ?thesis by (subst dec.simps) (simp add: digit_not_underscore [THEN not_sym])
  next
    case False
    then show ?thesis using 1 by (subst dec.simps) (simp add: digit_not_underscore [THEN not_sym])
  qed
qed

lemma dec_inj: "dec n = dec m \<Longrightarrow> n = m"
proof (induction n arbitrary: m rule: dec.induct)
  case (1 n)
  show ?case
  proof (cases "n < 10")
    case True
    note n = this
    show ?thesis
    proof (cases "m < 10")
      case True
      with n 1(2) show ?thesis by (simp add: dec.simps [of n] dec.simps [of m] digit_inj)
    next
      case False
      with n 1(2) dec_nonempty [of "m div 10"] show ?thesis
        by (simp add: dec.simps [of n] dec.simps [of m])
    qed
  next
    case False
    note n = this
    show ?thesis
    proof (cases "m < 10")
      case True
      with n 1(2) dec_nonempty [of "n div 10"] show ?thesis
        by (simp add: dec.simps [of n] dec.simps [of m])
    next
      case False
      with n 1(2) have e: "dec (n div 10) = dec (m div 10)" "digit (n mod 10) = digit (m mod 10)"
        by (simp_all add: dec.simps [of n] dec.simps [of m])
      from 1(1) [OF n e(1)] have "n div 10 = m div 10" .
      moreover from e(2) have "n mod 10 = m mod 10" by (simp add: digit_inj)
      ultimately show ?thesis by (metis div_mult_mod_eq)
    qed
  qed
qed

lemma split_at_first:
  "x \<notin> set xs \<Longrightarrow> x \<notin> set ys \<Longrightarrow> xs @ x # xs' = ys @ x # ys' \<Longrightarrow> xs = ys \<and> xs' = ys'"
proof (induction xs arbitrary: ys)
  case Nil
  then show ?case by (cases ys) auto
next
  case (Cons a xs)
  then show ?case by (cases ys) auto
qed

lemma generated_id_inj: "generated_id t i = generated_id t' i' \<Longrightarrow> t = t' \<and> i = i'"
  using split_at_first [of "CHR ''_''" "dec t" "dec t'" "dec i" "dec i'"]
  by (auto simp: generated_id_def dec_no_underscore dest: dec_inj)

lemma length_downloadItems: "length (downloadItems items) = length items"
  by (simp add: downloadItems_def)

lemma nth_downloadItems:
  "i < length items \<Longrightarrow> downloadItems items ! i = make_item (i, items ! i)"
  by (simp add: downloadItems_def nth_enumerate_eq)

lemma item_id_make_item:
  "item_id (make_item (i, env, it)) = or_string (raw_id it) (generated_id (now env) i)"
  by (simp add: make_item_def)


text \<open>
  C9, as amended.  An item supplied without an id (absent or empty) gets the id
  \<^verbatim>\<open>item_<time>_<index>\<close>.  Within one call of \<^verbatim>\<open>addToQueue\<close> two such items get
  different ids, and across calls they get different ids whenever the two readings of
  the clock differ.  A non-empty id that the caller supplies is kept as it is, so the
  uniqueness of supplied ids is the caller's.  The items made are appended to the item
  objects, and their number is returned.
\<close>

theorem generated_ids_distinct:
  "(\<forall>i j. i < length items \<and> j < length items \<and> i \<noteq> j
       \<and> raw_id (snd (items ! i)) \<in> {None, Some []} \<and> raw_id (snd (items ! j)) \<in> {None, Some []}
      \<longrightarrow> item_id (downloadItems items ! i) \<noteq> item_id (downloadItems items ! j))
   \<and> (\<forall>i j. i < length items \<and> j < length items'
       \<and> raw_id (snd (items ! i)) \<in> {None, Some []} \<and> raw_id (snd (items' ! j)) \<in> {None, Some []}
       \<and> now (fst (items ! i)) \<noteq> now (fst (items' ! j))
      \<longrightarrow> item_id (downloadItems items ! i) \<noteq> item_id (downloadItems items' ! j))
   \<and> (\<forall>i x. i < length items \<and> raw_id (snd (items ! i)) = Some x \<and> x \<noteq> []
      \<longrightarrow> item_id (downloadItems items ! i) = x)
   \<and> objs (snd (addToQueue items s)) = objs s @ downloadItems items
   \<and> fst (addToQueue items s) = length items"
proof -
  have gen: "item_id (downloadItems xs ! i) = generated_id (now (fst (xs ! i))) i"
    if "i < length xs" "raw_id (snd (xs ! i)) \<in> {None, Some []}" for xs i
    using that by (cases "xs ! i") (auto simp: nth_downloadItems item_id_make_item or_string_def)
  have kept: "item_id (downloadItems items ! i) = x"
    if "i < length items" "raw_id (snd (items ! i)) = Some x" "x \<noteq> []" for i x
    using that by (cases "items ! i") (auto simp: nth_downloadItems item_id_make_item or_string_def)
  have a: "\<forall>i j. i < length items \<and> j < length items \<and> i \<noteq> j
       \<and> raw_id (snd (items ! i)) \<in> {None, Some []} \<and> raw_id (snd (items ! j)) \<in> {None, Some []}
      \<longrightarrow> item_id (downloadItems items ! i) \<noteq> item_id (downloadItems items ! j)"
    using gen generated_id_inj by metis
  have b: "\<forall>i j. i < length items \<and> j < length items'
       \<and> raw_id (snd (items ! i)) \<in> {None, Some []} \<and> raw_id (snd (items' ! j)) \<in> {None, Some []}
       \<and> now (fst (items ! i)) \<noteq> now (fst (items' ! j))
      \<longrightarrow> item_id (downloadItems items ! i) \<noteq> item_id (downloadItems items' ! j)"
    using gen generated_id_inj by metis
  have c: "\<forall>i x. i < length items \<and> raw_id (snd (items ! i)) = Some x \<and> x \<noteq> []
      \<longrightarrow> item_id (downloadItems items ! i) = x"
    using kept by blast
  have d: "objs (snd (addToQueue items s)) = objs s @ downloadItems items"
    by (simp add: addToQueue_def Let_def emitProgress_def record_call_def)
  have e: "fst (addToQueue items s) = length items"
    by (simp add: addToQueue_def Let_def length_downloadItems)
  from a b c d e show ?thesis by (intro conjI)
qed

text \<open>
  The theorem at a call with two items without ids, and at a call with one item that
  has the id \<^verbatim>\<open>img_0\<close>.
\<close>

theorem generated_ids_distinct_witness:
  "item_id (downloadItems [plain_item ''https://cdn.example/a.jpg'' ''/a.jpg'',
                           plain_item ''https://cdn.example/a.jpg'' ''/a.jpg''] ! 0)
   \<noteq> item_id (downloadItems [plain_item ''https://cdn.example/a.jpg'' ''/a.jpg'',
                           plain_item ''https://cdn.example/a.jpg'' ''/a.jpg''] ! 1)
   \<and> item_id (downloadItems [named_item ''img_0'' ''https://cdn.example/a.jpg'' ''a.jpg''] ! 0) = ''img_0''"
  using generated_ids_distinct [of "[plain_item ''https://cdn.example/a.jpg'' ''/a.jpg'',
                           plain_item ''https://cdn.example/a.jpg'' ''/a.jpg'']" "[]" new_manager]
    generated_ids_distinct [of "[named_item ''img_0'' ''https://cdn.example/a.jpg'' ''a.jpg'']" "[]" new_manager]
  by (simp add: plain_item_def named_item_def)


lemma dec_clock: "dec 1700000000000 = ''1700000000000''"
  by (simp add: dec.simps digit_def char_of_eq_iff)

lemma dec_0: "dec 0 = ''0''"
  by (simp add: dec.simps digit_def char_of_eq_iff)

text \<open>
  C9 as stated fails.  Two calls of \<^verbatim>\<open>addToQueue\<close> in the same millisecond, each with
  one item without an id, give both items the id \<^verbatim>\<open>item_1700000000000_0\<close>, although
  the items differ (their urls do); and two items supplied with the same id keep it.
\<close>

theorem id_uniqueness_counterexample:
  "item_id (objs (run example_options
      [AddToQueue [plain_item ''https://cdn.example/a.jpg'' ''/a.jpg''],
       AddToQueue [plain_item ''https://cdn.example/b.jpg'' ''/b.jpg'']]) ! 0) = ''item_1700000000000_0''
   \<and> item_id (objs (run example_options
      [AddToQueue [plain_item ''https://cdn.example/a.jpg'' ''/a.jpg''],
       AddToQueue [plain_item ''https://cdn.example/b.jpg'' ''/b.jpg'']]) ! 1) = ''item_1700000000000_0''
   \<and> url (objs (run example_options
      [AddToQueue [plain_item ''https://cdn.example/a.jpg'' ''/a.jpg''],
       AddToQueue [plain_item ''https://cdn.example/b.jpg'' ''/b.jpg'']]) ! 0) = ''https://cdn.example/a.jpg''
   \<and> url (objs (run example_options
      [AddToQueue [plain_item ''https://cdn.example/a.jpg'' ''/a.jpg''],
       AddToQueue [plain_item ''https://cdn.example/b.jpg'' ''/b.jpg'']]) ! 1) = ''https://cdn.example/b.jpg''
   \<and> map item_id (objs (run example_options
      [AddToQueue [named_item ''img_0'' ''https://cdn.example/a.jpg'' ''a.jpg'',
                   named_item ''img_0'' ''https://cdn.example/b.jpg'' ''b.jpg'']])) = [''img_0'', ''img_0'']"
  by (simp add: dec_clock dec_0 run_def step_def addToQueue_def downloadItems_def make_item_def emitProgress_def record_call_def init_def new_manager_def example_options_def plain_item_def named_item_def generated_id_def or_string_def enumerate_eq_zip Let_def)


section \<open>Preservation along a run\<close>

text \<open>
  A property of the manager holds in every state of a run when it holds after \<^verbatim>\<open>init\<close>
  and every piece of code that runs between two suspensions preserves it: a call of
  \<^verbatim>\<open>addToQueue\<close>, one iteration of the slot-filling loop, a change of the flags, the
  completion callback, \<^verbatim>\<open>cancel\<close>, and the resumptions of \<^verbatim>\<open>processItem\<close>.  The
  flags \<open>A\<close> and \<open>C\<close> say whether \<^verbatim>\<open>addToQueue\<close> and \<^verbatim>\<open>cancel\<close> occur at all.
\<close>

lemma fill_preserves:
  assumes iter: "\<And>s. P s \<Longrightarrow> int (length (active s)) < maxConcurrent s \<Longrightarrow> queue s \<noteq> [] \<Longrightarrow>
      P (processItem_begin (hd (queue s)) (s\<lparr>queue := tl (queue s), active := active s @ [hd (queue s)]\<rparr>))"
  shows "P s \<Longrightarrow> P (fill s)"
proof (induction s rule: fill.induct)
  case (1 s)
  show ?case
  proof (cases "int (length (active s)) < maxConcurrent s \<and> queue s \<noteq> []")
    case True
    then have "P (processItem_begin (hd (queue s)) (s\<lparr>queue := tl (queue s), active := active s @ [hd (queue s)]\<rparr>))"
      using iter "1.prems" by blast
    then show ?thesis using True "1.IH" by (subst fill.simps) simp
  next
    case False
    then show ?thesis using "1.prems" by (subst fill.simps) auto
  qed
qed

lemma after_loop_preserves:
  assumes "\<And>s. P s \<Longrightarrow> P (emitComplete s)"
  shows "P s \<Longrightarrow> P (fst (after_loop s))"
  using assms by (simp add: after_loop_def)

lemma pause_check_preserves:
  assumes "\<And>s. P s \<Longrightarrow> P (emitComplete s)" and "\<And>s. P s \<Longrightarrow> P (fill s)"
  shows "P s \<Longrightarrow> P (fst (pause_check s))"
  using assms after_loop_preserves [of P s] by (simp add: pause_check_def)

lemma loop_top_preserves:
  assumes "\<And>s. P s \<Longrightarrow> P (emitComplete s)" and "\<And>s. P s \<Longrightarrow> P (fill s)"
  shows "P s \<Longrightarrow> P (fst (loop_top s))"
  using assms after_loop_preserves [of P s] pause_check_preserves [of P s] by (simp add: loop_top_def)

lemma step_preserves:
  assumes add: "\<And>s items. A \<Longrightarrow> P s \<Longrightarrow> P (snd (addToQueue items s))"
    and iter: "\<And>s. P s \<Longrightarrow> int (length (active s)) < maxConcurrent s \<Longrightarrow> queue s \<noteq> [] \<Longrightarrow>
      P (processItem_begin (hd (queue s)) (s\<lparr>queue := tl (queue s), active := active s @ [hd (queue s)]\<rparr>))"
    and paused: "\<And>s b. P s \<Longrightarrow> P (s\<lparr>isPaused := b\<rparr>)"
    and started: "\<And>s. P s \<Longrightarrow> P (s\<lparr>isCancelled := False, isPaused := False\<rparr>)"
    and complete: "\<And>s. P s \<Longrightarrow> P (emitComplete s)"
    and drv: "\<And>s ds. P s \<Longrightarrow> P (s\<lparr>drivers := ds\<rparr>)"
    and cancelled: "\<And>s. C \<Longrightarrow> P s \<Longrightarrow> P (cancel s)"
    and succ: "\<And>s r h. P s \<Longrightarrow> (r, Waiting h) \<in> set (tasks s) \<Longrightarrow> P (on_success r (Waiting h) s)"
    and fail: "\<And>s r st msg. P s \<Longrightarrow> (r, st) \<in> set (tasks s) \<Longrightarrow> st \<noteq> Delaying \<Longrightarrow> P (on_failure r st msg s)"
    and wait: "\<And>s r h. P s \<Longrightarrow> (r, Starting) \<in> set (tasks s) \<Longrightarrow>
      P (s\<lparr>tasks := remove1 (r, Starting) (tasks s) @ [(r, Waiting h)]\<rparr>)"
    and del: "\<And>s r. P s \<Longrightarrow> (r, Delaying) \<in> set (tasks s) \<Longrightarrow> P (s\<lparr>tasks := remove1 (r, Delaying) (tasks s)\<rparr>)"
    and s: "P s" and c: "ev = Cancel \<Longrightarrow> C" and a: "(\<exists>items. ev = AddToQueue items) \<Longrightarrow> A"
  shows "P (step ev s)"
proof -
  have fl: "\<And>s. P s \<Longrightarrow> P (fill s)"
    using iter by (rule fill_preserves)
  have lt: "\<And>s. P s \<Longrightarrow> P (fst (loop_top s))"
    using complete fl by (rule loop_top_preserves)
  have pc: "\<And>s. P s \<Longrightarrow> P (fst (pause_check s))"
    using complete fl by (rule pause_check_preserves)
  have al: "\<And>s. P s \<Longrightarrow> P (fst (after_loop s))"
    using complete by (rule after_loop_preserves)
  show ?thesis
  proof (cases ev)
    case (AddToQueue items)
    then show ?thesis using add s a by (simp add: step_def)
  next
    case Start
    have "P (fst (start_body s))"
      using s complete started lt by (simp add: start_body_def)
    then have "P (start s)"
      using drv by (cases "start_body s") (auto simp: start_def split: option.splits)
    then show ?thesis using Start by (simp add: step_def)
  next
    case Pause
    then show ?thesis using paused s by (simp add: step_def pause_def)
  next
    case Resume
    then show ?thesis using paused s by (simp add: step_def resume_def)
  next
    case Cancel
    then show ?thesis using cancelled s c by (simp add: step_def)
  next
    case (DriverWake k)
    have "P (fst (continue d s))" for d
      using s lt pc al by (cases d) (simp_all add: continue_def)
    then have "P (fst (continue (drivers s ! k) s))" .
    then have "P (driver_wake k s)"
      using drv s by (cases "continue (drivers s ! k) s") (auto simp: driver_wake_def split: option.splits)
    then show ?thesis using DriverWake by (simp add: step_def)
  next
    case (DownloadStarted r res)
    show ?thesis
    proof (cases "(r, Starting) \<in> set (tasks s)")
      case True
      then have "P (resume_started r res s)"
        using s fail wait by (auto simp: resume_started_def split: sum.splits)
      then show ?thesis using DownloadStarted True by (simp add: step_def)
    next
      case False
      then show ?thesis using DownloadStarted s by (simp add: step_def)
    qed
  next
    case (DownloadPolled r h res)
    show ?thesis
    proof (cases "(r, Waiting h) \<in> set (tasks s)")
      case True
      then have "P (resume_polled r h res s)"
        using s fail succ by (auto simp: resume_polled_def split: search_result.splits dl_state.splits)
      then show ?thesis using DownloadPolled True by (simp add: step_def)
    next
      case False
      then show ?thesis using DownloadPolled s by (simp add: step_def)
    qed
  next
    case (DelayElapsed r)
    then show ?thesis using del s by (simp add: step_def)
  qed
qed

lemma fold_step_preserves:
  assumes add: "\<And>s items. A \<Longrightarrow> P s \<Longrightarrow> P (snd (addToQueue items s))"
    and iter: "\<And>s. P s \<Longrightarrow> int (length (active s)) < maxConcurrent s \<Longrightarrow> queue s \<noteq> [] \<Longrightarrow>
      P (processItem_begin (hd (queue s)) (s\<lparr>queue := tl (queue s), active := active s @ [hd (queue s)]\<rparr>))"
    and paused: "\<And>s b. P s \<Longrightarrow> P (s\<lparr>isPaused := b\<rparr>)"
    and started: "\<And>s. P s \<Longrightarrow> P (s\<lparr>isCancelled := False, isPaused := False\<rparr>)"
    and complete: "\<And>s. P s \<Longrightarrow> P (emitComplete s)"
    and drv: "\<And>s ds. P s \<Longrightarrow> P (s\<lparr>drivers := ds\<rparr>)"
    and cancelled: "\<And>s. C \<Longrightarrow> P s \<Longrightarrow> P (cancel s)"
    and succ: "\<And>s r h. P s \<Longrightarrow> (r, Waiting h) \<in> set (tasks s) \<Longrightarrow> P (on_success r (Waiting h) s)"
    and fail: "\<And>s r st msg. P s \<Longrightarrow> (r, st) \<in> set (tasks s) \<Longrightarrow> st \<noteq> Delaying \<Longrightarrow> P (on_failure r st msg s)"
    and wait: "\<And>s r h. P s \<Longrightarrow> (r, Starting) \<in> set (tasks s) \<Longrightarrow>
      P (s\<lparr>tasks := remove1 (r, Starting) (tasks s) @ [(r, Waiting h)]\<rparr>)"
    and del: "\<And>s r. P s \<Longrightarrow> (r, Delaying) \<in> set (tasks s) \<Longrightarrow> P (s\<lparr>tasks := remove1 (r, Delaying) (tasks s)\<rparr>)"
  shows "P s \<Longrightarrow> (Cancel \<in> set evs \<Longrightarrow> C) \<Longrightarrow> ((\<exists>items. AddToQueue items \<in> set evs) \<Longrightarrow> A) \<Longrightarrow>
         P (fold step evs s)"
proof (induction evs arbitrary: s)
  case Nil
  then show ?case by simp
next
  case (Cons ev evs)
  have "P (step ev s)"
    using add iter paused started complete drv cancelled succ fail wait del Cons.prems(1)
  proof (rule step_preserves)
    show "ev = Cancel \<Longrightarrow> C" using Cons.prems(2) by simp
    show "(\<exists>items. ev = AddToQueue items) \<Longrightarrow> A" using Cons.prems(3) by auto
  qed
  then have "P (fold step evs (step ev s))"
    using Cons.prems(2,3) by (intro Cons.IH) auto
  then show ?case by simp
qed

section \<open>Facts about the operations\<close>

text \<open>
  What the operations do to the views of the progress callback, to the suspended
  invocations, to the item objects and to the four collections.
\<close>

subsection \<open>Views\<close>

lemma views_of_append: "views_of (xs @ ys) = views_of xs @ views_of ys"
  by (induction xs rule: views_of.induct) simp_all

lemma progress_views_record_call: "progress_views (record_call c s) = progress_views s @ views_of [c]"
  by (simp add: progress_views_def record_call_def views_of_append)

lemma progress_views_emitProgress:
  "progress_views (emitProgress s) = progress_views s @ (if onProgress s then [getView s] else [])"
  by (simp add: emitProgress_def progress_views_record_call)

lemma progress_views_emitComplete: "progress_views (emitComplete s) = progress_views s"
  by (simp add: emitComplete_def progress_views_record_call)

subsection \<open>Suspended invocations\<close>

lemma pending_append: "pending (ts @ us) = pending ts + pending us"
  by (simp add: pending_def)

lemma pending_single: "pending [(r, st)] = (if st \<noteq> Delaying then {#r#} else {#})"
  by (simp add: pending_def)

lemma pending_member: "(r, st) \<in> set ts \<Longrightarrow> st \<noteq> Delaying \<Longrightarrow> r \<in># pending ts"
  by (force simp: pending_def)

lemma pending_remove1:
  "(r, st) \<in> set ts \<Longrightarrow> pending (remove1 (r, st) ts) = pending ts - (if st \<noteq> Delaying then {#r#} else {#})"
proof -
  assume in_ts: "(r, st) \<in> set ts"
  define M where "M = mset ts"
  have x: "(r, st) \<in># M" using in_ts by (simp add: M_def)
  have eq: "pending (remove1 (r, st) ts) = image_mset fst (filter_mset (\<lambda>t. snd t \<noteq> Delaying) (M - {#(r, st)#}))"
    unfolding pending_def M_def by (simp only: mset_map mset_filter mset_remove1)
  have p: "pending ts = image_mset fst (filter_mset (\<lambda>t. snd t \<noteq> Delaying) M)"
    unfolding pending_def M_def by (simp only: mset_map mset_filter)
  show ?thesis
  proof (cases "st \<noteq> Delaying")
    case True
    then have "{#(r, st)#} \<subseteq># filter_mset (\<lambda>t. snd t \<noteq> Delaying) M"
      using x by simp
    then have "image_mset fst (filter_mset (\<lambda>t. snd t \<noteq> Delaying) M - {#(r, st)#})
               = image_mset fst (filter_mset (\<lambda>t. snd t \<noteq> Delaying) M) - image_mset fst {#(r, st)#}"
      by (rule image_mset_Diff)
    then show ?thesis using True eq p by (simp add: filter_diff_mset)
  next
    case False
    then show ?thesis using eq p by (simp add: filter_diff_mset)
  qed
qed

subsection \<open>Removal from the active collection\<close>

lemma remove_by_id_image:
  "image_mset (\<lambda>r. item_id (os ! r)) (mset (remove_by_id os i A))
   = image_mset (\<lambda>r. item_id (os ! r)) (mset A) - {#i#}"
  by (induction A) auto

lemma remove_by_id_subset: "set (remove_by_id os i A) \<subseteq> set A"
  by (induction A) auto


lemma remove_by_id_cong:
  "(\<And>r. r \<in> set A \<Longrightarrow> item_id (os' ! r) = item_id (os ! r)) \<Longrightarrow> remove_by_id os' i A = remove_by_id os i A"
  by (induction A) auto

subsection \<open>Item objects\<close>

lemma length_objs_modify: "length (objs (modify q f s)) = length (objs s)"
  by (simp add: modify_def)

lemma item_id_modify:
  "(\<And>it. item_id (f it) = item_id it) \<Longrightarrow> item_id (objs (modify q f s) ! r) = item_id (objs s ! r)"
  by (cases "q < length (objs s)"; cases "r = q") (simp_all add: modify_def list_update_beyond)

lemma ids_modify:
  "(\<And>it. item_id (f it) = item_id it) \<Longrightarrow> map item_id (objs (modify q f s)) = map item_id (objs s)"
  by (rule nth_equalityI) (simp_all add: length_objs_modify item_id_modify)

lemma id_of_modify:
  "(\<And>it. item_id (f it) = item_id it) \<Longrightarrow> id_of (modify q f s) = id_of s"
  by (rule ext) (simp add: id_of_def item_id_modify)

lemma objs_modify_all:
  "(\<And>it. it \<in> set (objs s) \<Longrightarrow> Q it) \<Longrightarrow> (q < length (objs s) \<Longrightarrow> Q (f (objs s ! q))) \<Longrightarrow>
   it \<in> set (objs (modify q f s)) \<Longrightarrow> Q it"
  by (cases "q < length (objs s)")
     (auto simp: modify_def list_update_beyond dest!: set_update_subset_insert [THEN subsetD])

subsection \<open>What each operation does to the collections\<close>

lemma addToQueue_fields:
  "queue (snd (addToQueue items s)) = queue s @ [length (objs s) ..< length (objs s) + length items]"
  "objs (snd (addToQueue items s)) = objs s @ downloadItems items"
  "active (snd (addToQueue items s)) = active s"
  "completed (snd (addToQueue items s)) = completed s"
  "failed (snd (addToQueue items s)) = failed s"
  "tasks (snd (addToQueue items s)) = tasks s"
  "maxConcurrent (snd (addToQueue items s)) = maxConcurrent s"
  "retryAttempts (snd (addToQueue items s)) = retryAttempts s"
  by (simp_all add: addToQueue_def Let_def emitProgress_def record_call_def length_downloadItems)

lemma processItem_begin_fields:
  "queue (processItem_begin r s) = queue s"
  "active (processItem_begin r s) = active s"
  "completed (processItem_begin r s) = completed s"
  "failed (processItem_begin r s) = failed s"
  "tasks (processItem_begin r s) = tasks s @ [(r, Starting)]"
  "objs (processItem_begin r s) = objs (modify r (\<lambda>it. it\<lparr>status := Downloading\<rparr>) s)"
  "maxConcurrent (processItem_begin r s) = maxConcurrent s"
  "retryAttempts (processItem_begin r s) = retryAttempts s"
  by (simp_all add: processItem_begin_def Let_def emitProgress_def record_call_def modify_def)

lemma finally_block_fields:
  "queue (finally_block r st s) = queue s"
  "active (finally_block r st s) = remove_by_id (objs s) (item_id (objs s ! r)) (active s)"
  "completed (finally_block r st s) = completed s"
  "failed (finally_block r st s) = failed s"
  "tasks (finally_block r st s) = remove1 (r, st) (tasks s) @ [(r, Delaying)]"
  "objs (finally_block r st s) = objs s"
  "maxConcurrent (finally_block r st s) = maxConcurrent s"
  "retryAttempts (finally_block r st s) = retryAttempts s"
  by (simp_all add: finally_block_def Let_def emitProgress_def record_call_def)

lemma remove_by_id_modify:
  "(\<And>it. item_id (f it) = item_id it) \<Longrightarrow>
   remove_by_id (objs (modify q f s)) (item_id (objs (modify q f s) ! r)) A
   = remove_by_id (objs s) (item_id (objs s ! r)) A"
proof -
  assume f: "\<And>it. item_id (f it) = item_id it"
  have "remove_by_id (objs (modify q f s)) (item_id (objs (modify q f s) ! r)) A
        = remove_by_id (objs s) (item_id (objs (modify q f s) ! r)) A"
    by (rule remove_by_id_cong) (simp add: item_id_modify f)
  then show ?thesis by (simp add: item_id_modify f)
qed

lemma on_success_fields:
  "queue (on_success r st s) = queue s"
  "active (on_success r st s) = remove_by_id (objs s) (item_id (objs s ! r)) (active s)"
  "completed (on_success r st s) = completed s @ [r]"
  "failed (on_success r st s) = failed s"
  "tasks (on_success r st s) = remove1 (r, st) (tasks s) @ [(r, Delaying)]"
  "objs (on_success r st s) = objs (modify r (\<lambda>it. it\<lparr>status := Completed\<rparr>) s)"
  "maxConcurrent (on_success r st s) = maxConcurrent s"
  "retryAttempts (on_success r st s) = retryAttempts s"
proof -
  have m: "remove_by_id (objs (modify r (\<lambda>it. it\<lparr>status := Completed\<rparr>) s))
             (item_id (objs (modify r (\<lambda>it. it\<lparr>status := Completed\<rparr>) s) ! r)) (active s)
           = remove_by_id (objs s) (item_id (objs s ! r)) (active s)"
    by (rule remove_by_id_modify) simp
  show "active (on_success r st s) = remove_by_id (objs s) (item_id (objs s ! r)) (active s)"
    using m by (simp add: on_success_def finally_block_fields modify_def)
qed (simp_all add: on_success_def finally_block_fields modify_def)

lemma catch_block_fields:
  "queue (catch_block r msg s) = (if retries (objs s ! r) < retryAttempts s then r # queue s else queue s)"
  "active (catch_block r msg s) = active s"
  "completed (catch_block r msg s) = completed s"
  "failed (catch_block r msg s) = (if retries (objs s ! r) < retryAttempts s then failed s else failed s @ [r])"
  "tasks (catch_block r msg s) = tasks s"
  "objs (catch_block r msg s) =
     objs (modify r (if retries (objs s ! r) < retryAttempts s
                     then (\<lambda>it. it\<lparr>retries := retries it + 1, status := Queued\<rparr>)
                     else (\<lambda>it. it\<lparr>status := Failed, error := Some msg\<rparr>)) s)"
  "maxConcurrent (catch_block r msg s) = maxConcurrent s"
  "retryAttempts (catch_block r msg s) = retryAttempts s"
  by (simp_all add: catch_block_def Let_def record_call_def modify_def)

lemma on_failure_fields:
  "queue (on_failure r st msg s) = (if retries (objs s ! r) < retryAttempts s then r # queue s else queue s)"
  "active (on_failure r st msg s) = remove_by_id (objs s) (item_id (objs s ! r)) (active s)"
  "completed (on_failure r st msg s) = completed s"
  "failed (on_failure r st msg s) = (if retries (objs s ! r) < retryAttempts s then failed s else failed s @ [r])"
  "tasks (on_failure r st msg s) = remove1 (r, st) (tasks s) @ [(r, Delaying)]"
  "objs (on_failure r st msg s) =
     objs (modify r (if retries (objs s ! r) < retryAttempts s
                     then (\<lambda>it. it\<lparr>retries := retries it + 1, status := Queued\<rparr>)
                     else (\<lambda>it. it\<lparr>status := Failed, error := Some msg\<rparr>)) s)"
  "maxConcurrent (on_failure r st msg s) = maxConcurrent s"
  "retryAttempts (on_failure r st msg s) = retryAttempts s"
proof -
  let ?f = "if retries (objs s ! r) < retryAttempts s
            then (\<lambda>it. it\<lparr>retries := retries it + 1, status := Queued\<rparr>)
            else (\<lambda>it. it\<lparr>status := Failed, error := Some msg\<rparr>)"
  have m: "remove_by_id (objs (modify r ?f s)) (item_id (objs (modify r ?f s) ! r)) (active s)
           = remove_by_id (objs s) (item_id (objs s ! r)) (active s)"
    by (rule remove_by_id_modify) simp
  show "active (on_failure r st msg s) = remove_by_id (objs s) (item_id (objs s ! r)) (active s)"
    using m by (simp add: on_failure_def finally_block_fields catch_block_fields)
qed (simp_all add: on_failure_def finally_block_fields catch_block_fields)

lemma cancel_fields:
  "queue (cancel s) = []"
  "active (cancel s) = []"
  "completed (cancel s) = completed s"
  "failed (cancel s) = failed s"
  "tasks (cancel s) = tasks s"
  "objs (cancel s) = objs s"
  "maxConcurrent (cancel s) = maxConcurrent s"
  "retryAttempts (cancel s) = retryAttempts s"
  by (simp_all add: cancel_def Let_def)

lemma emitComplete_fields:
  "queue (emitComplete s) = queue s"
  "active (emitComplete s) = active s"
  "completed (emitComplete s) = completed s"
  "failed (emitComplete s) = failed s"
  "tasks (emitComplete s) = tasks s"
  "objs (emitComplete s) = objs s"
  "maxConcurrent (emitComplete s) = maxConcurrent s"
  "retryAttempts (emitComplete s) = retryAttempts s"
  by (simp_all add: emitComplete_def record_call_def)

section \<open>Evaluating runs\<close>

text \<open>The definitions that evaluate a run on concrete events.\<close>

lemmas eval_defs = run_def step_def init_def new_manager_def example_options_def plain_item_def
  named_item_def addToQueue_def downloadItems_def make_item_def generated_id_def or_string_def
  or_number_def enumerate_eq_zip emitProgress_def emitComplete_def record_call_def getProgress_def
  getView_def Let_def start_def start_body_def loop_top_def pause_check_def after_loop_def
  continue_def driver_wake_def fill.simps processItem_begin_def modify_def buildFilePath_def
  resume_started_def resume_polled_def downloadFile_def on_success_def on_failure_def
  catch_block_def finally_block_def pause_def resume_def cancel_def cancel_calls_def
  List.map_filter_def progress_views_def

section \<open>Conservation\<close>

text \<open>
  Without \<^verbatim>\<open>cancel\<close> every operation keeps every item accounted for exactly once.
  The active collection is tied to the rest through the ids only, because the
  \<^verbatim>\<open>finally\<close> block removes by id.
\<close>

lemma in_flight_valid: "accounted s = mset [b..<n] \<Longrightarrow> r \<in># in_flight s \<Longrightarrow> b \<le> r \<and> r < n"
proof -
  assume a: "accounted s = mset [b..<n]" and r: "r \<in># in_flight s"
  have "r \<in># accounted s" using r by (simp add: accounted_def)
  then show ?thesis using a by simp
qed

lemma queue_valid: "accounted s = mset [b..<n] \<Longrightarrow> r \<in> set (queue s) \<Longrightarrow> b \<le> r \<and> r < n"
proof -
  assume a: "accounted s = mset [b..<n]" and r: "r \<in> set (queue s)"
  have "r \<in># accounted s" using r by (simp add: accounted_def)
  then show ?thesis using a by simp
qed

lemma conserved_addToQueue: "conserved b s \<Longrightarrow> conserved b (snd (addToQueue items s))"
proof -
  assume c: "conserved b s"
  let ?s = "snd (addToQueue items s)"
  let ?n = "length (objs s)"
  have bn: "b \<le> ?n" and acc: "accounted s = mset [b..<?n]" and act: "set (active s) \<subseteq> {b..<?n}"
    and ids: "image_mset (id_of s) (mset (active s)) = image_mset (id_of s) (in_flight s)"
    using c by (simp_all add: conserved_def)
  have fl: "in_flight ?s = in_flight s"
    by (simp add: in_flight_def addToQueue_fields)
  have "accounted ?s = accounted s + mset [?n..<?n + length items]"
    by (simp add: accounted_def fl addToQueue_fields)
  also have "\<dots> = mset ([b..<?n] @ [?n..<?n + length items])"
    using acc by simp
  also have "[b..<?n] @ [?n..<?n + length items] = [b..<?n + length items]"
    by (rule upt_add_eq_append [symmetric]) (rule bn)
  finally have 1: "accounted ?s = mset [b..<length (objs ?s)]"
    by (simp add: addToQueue_fields length_downloadItems)
  have 0: "b \<le> length (objs ?s)"
    using bn by (simp add: addToQueue_fields)
  have 2: "set (active ?s) \<subseteq> {b..<length (objs ?s)}"
    using act by (auto simp: addToQueue_fields)
  have same: "id_of ?s r = id_of s r" if "r < ?n" for r
    using that by (simp add: id_of_def addToQueue_fields nth_append)
  have "image_mset (id_of ?s) (mset (active s)) = image_mset (id_of s) (mset (active s))"
    using act by (intro image_mset_cong same) auto
  moreover have "image_mset (id_of ?s) (in_flight s) = image_mset (id_of s) (in_flight s)"
    using in_flight_valid [OF acc] by (intro image_mset_cong same) auto
  ultimately have 3: "image_mset (id_of ?s) (mset (active ?s)) = image_mset (id_of ?s) (in_flight ?s)"
    using ids by (simp add: fl addToQueue_fields)
  from 0 1 2 3 show ?thesis by (simp add: conserved_def)
qed

lemma conserved_iteration:
  assumes c: "conserved b s" and q: "queue s \<noteq> []"
  shows "conserved b (processItem_begin (hd (queue s)) (s\<lparr>queue := tl (queue s), active := active s @ [hd (queue s)]\<rparr>))"
proof -
  let ?r = "hd (queue s)"
  let ?s = "processItem_begin ?r (s\<lparr>queue := tl (queue s), active := active s @ [?r]\<rparr>)"
  let ?n = "length (objs s)"
  have bn: "b \<le> ?n" and acc: "accounted s = mset [b..<?n]" and act: "set (active s) \<subseteq> {b..<?n}"
    and ids: "image_mset (id_of s) (mset (active s)) = image_mset (id_of s) (in_flight s)"
    using c by (simp_all add: conserved_def)
  have r: "b \<le> ?r \<and> ?r < ?n" using queue_valid [OF acc] q by simp
  have fl: "in_flight ?s = in_flight s + {#?r#}"
    by (simp add: in_flight_def processItem_begin_fields pending_append pending_single)
  have qs: "mset (queue s) = mset (tl (queue s)) + {#?r#}"
    using q by (cases "queue s") simp_all
  have len: "length (objs ?s) = ?n"
    by (simp add: processItem_begin_fields modify_def)
  have "accounted ?s = accounted s"
    by (simp add: accounted_def fl processItem_begin_fields(1-5) qs)
  then have 1: "accounted ?s = mset [b..<length (objs ?s)]"
    using acc by (simp only: len)
  have 0: "b \<le> length (objs ?s)"
    using bn by (simp only: len)
  have "set (active ?s) \<subseteq> {b..<?n}"
    using act r by (simp add: processItem_begin_fields(1-5))
  then have 2: "set (active ?s) \<subseteq> {b..<length (objs ?s)}"
    by (simp only: len)
  have same: "id_of ?s = id_of s"
    by (rule ext) (simp add: id_of_def processItem_begin_fields item_id_modify)
  have 3: "image_mset (id_of ?s) (mset (active ?s)) = image_mset (id_of ?s) (in_flight ?s)"
    using ids by (simp add: same fl processItem_begin_fields)
  from 0 1 2 3 show ?thesis by (simp add: conserved_def)
qed

lemma conserved_settle:
  assumes c: "conserved b s" and t: "(r, st) \<in> set (tasks s)" and st: "st \<noteq> Delaying"
    and moved: "mset (queue s') + mset (completed s') + mset (failed s')
                = mset (queue s) + mset (completed s) + mset (failed s) + {#r#}"
    and a: "active s' = remove_by_id (objs s) (item_id (objs s ! r)) (active s)"
    and ts: "tasks s' = remove1 (r, st) (tasks s) @ [(r, Delaying)]"
    and len: "length (objs s') = length (objs s)"
    and same: "id_of s' = id_of s"
  shows "conserved b s'"
proof -
  let ?n = "length (objs s)"
  have bn: "b \<le> ?n" and acc: "accounted s = mset [b..<?n]" and act: "set (active s) \<subseteq> {b..<?n}"
    and ids: "image_mset (id_of s) (mset (active s)) = image_mset (id_of s) (in_flight s)"
    using c by (simp_all add: conserved_def)
  have mem: "r \<in># in_flight s"
    using t st by (simp add: in_flight_def pending_member)
  have fl: "in_flight s' = in_flight s - {#r#}"
    using t st by (simp add: in_flight_def ts pending_append pending_single pending_remove1)
  define A where "A = mset (queue s') + mset (completed s') + mset (failed s')"
  define B where "B = mset (queue s) + mset (completed s) + mset (failed s)"
  define F where "F = in_flight s"
  have AB: "A = B + {#r#}"
    unfolding A_def B_def by (rule moved)
  have e1: "accounted s' = A + (F - {#r#})"
    by (simp add: accounted_def fl A_def F_def)
  have e2: "accounted s = B + F"
    by (simp add: accounted_def B_def F_def)
  have "{#r#} + (F - {#r#}) = F"
    using mem by (simp add: F_def)
  then have "A + (F - {#r#}) = B + F"
    unfolding AB by (simp only: add.assoc)
  then have 1: "accounted s' = mset [b..<length (objs s')]"
    using acc e1 e2 by (simp only: len)
  have 0: "b \<le> length (objs s')"
    using bn by (simp only: len)
  have "set (active s') \<subseteq> set (active s)"
    unfolding a by (rule remove_by_id_subset)
  then have 2: "set (active s') \<subseteq> {b..<length (objs s')}"
    using act unfolding len by (rule subset_trans)
  have idf: "id_of s = (\<lambda>q. item_id (objs s ! q))"
    by (rule ext) (simp add: id_of_def)
  have "image_mset (id_of s) (mset (active s')) = image_mset (id_of s) (mset (active s)) - {#id_of s r#}"
    unfolding a idf by (rule remove_by_id_image)
  moreover have "image_mset (id_of s) (in_flight s - {#r#}) = image_mset (id_of s) (in_flight s) - {#id_of s r#}"
    using mem by (simp add: image_mset_Diff)
  ultimately have 3: "image_mset (id_of s') (mset (active s')) = image_mset (id_of s') (in_flight s')"
    using ids by (simp add: same fl)
  from 0 1 2 3 show ?thesis by (simp add: conserved_def)
qed

lemma conserved_on_success:
  assumes "conserved b s" "(r, st) \<in> set (tasks s)" "st \<noteq> Delaying"
  shows "conserved b (on_success r st s)"
  using assms
proof (rule conserved_settle)
  show "id_of (on_success r st s) = id_of s"
    by (rule ext) (simp add: id_of_def on_success_fields item_id_modify)
qed (simp_all add: on_success_fields length_objs_modify)

lemma conserved_on_failure:
  assumes "conserved b s" "(r, st) \<in> set (tasks s)" "st \<noteq> Delaying"
  shows "conserved b (on_failure r st msg s)"
  using assms
proof (rule conserved_settle)
  show "id_of (on_failure r st msg s) = id_of s"
    by (rule ext) (simp add: id_of_def on_failure_fields item_id_modify)
qed (simp_all add: on_failure_fields length_objs_modify)

lemma conserved_fields:
  "queue s' = queue s \<Longrightarrow> active s' = active s \<Longrightarrow> completed s' = completed s \<Longrightarrow> failed s' = failed s \<Longrightarrow>
   pending (tasks s') = pending (tasks s) \<Longrightarrow> objs s' = objs s \<Longrightarrow> conserved b s' = conserved b s"
  by (simp add: conserved_def accounted_def in_flight_def id_of_def [abs_def])

lemma image_mset_inj_eq:
  assumes "image_mset f A = image_mset f B" and "inj_on f (set_mset A \<union> set_mset B)"
  shows "A = B"
proof -
  have "image_mset f A = image_mset f B + {#}" using assms(1) by simp
  then obtain C where "A = B + C" "{#} = image_mset f C"
    using assms(2) image_mset_eq_image_mset_plusD by blast
  then show ?thesis by simp
qed

lemma conserved_total:
  assumes "conserved b s"
  shows "length (queue s) + length (active s) + length (completed s) + length (failed s) + b = length (objs s)"
proof -
  have bn: "b \<le> length (objs s)" and acc: "accounted s = mset [b..<length (objs s)]"
    and ids: "image_mset (id_of s) (mset (active s)) = image_mset (id_of s) (in_flight s)"
    using assms by (simp_all add: conserved_def)
  have "size (image_mset (id_of s) (mset (active s))) = size (image_mset (id_of s) (in_flight s))"
    by (simp only: ids)
  then have a: "length (active s) = size (in_flight s)" by simp
  have "size (accounted s) = length (objs s) - b"
    by (simp only: acc size_mset length_upt)
  then show ?thesis using bn by (simp add: accounted_def a)
qed

lemma ids_inj_on:
  assumes d: "distinct (map item_id (drop b (objs s)))"
  shows "inj_on (id_of s) {b..<length (objs s)}"
proof (rule inj_onI)
  fix r r' assume r: "r \<in> {b..<length (objs s)}" and r': "r' \<in> {b..<length (objs s)}"
    and e: "id_of s r = id_of s r'"
  let ?xs = "map item_id (drop b (objs s))"
  have n: "?xs ! (q - b) = id_of s q" if "q \<in> {b..<length (objs s)}" for q
  proof -
    have "q - b < length (drop b (objs s))" using that by auto
    then have "?xs ! (q - b) = item_id (drop b (objs s) ! (q - b))" by (rule nth_map)
    also have "drop b (objs s) ! (q - b) = objs s ! (b + (q - b))" using that by simp
    also have "b + (q - b) = q" using that by simp
    finally show ?thesis by (simp add: id_of_def)
  qed
  have eq: "?xs ! (r - b) = ?xs ! (r' - b)"
    using e n [OF r] n [OF r'] by simp
  have "r - b < length ?xs" and "r' - b < length ?xs"
    using r r' by auto
  with d have "(?xs ! (r - b) = ?xs ! (r' - b)) = (r - b = r' - b)"
    by (rule nth_eq_iff_index_eq)
  from this and eq have "r - b = r' - b" by (rule iffD1)
  then show "r = r'" using r r' by auto
qed

lemma conserved_exact:
  assumes c: "conserved b s" and d: "distinct (map item_id (drop b (objs s)))"
  shows "mset (queue s) + mset (active s) + mset (completed s) + mset (failed s) = mset [b..<length (objs s)]"
proof -
  let ?n = "length (objs s)"
  have acc: "accounted s = mset [b..<?n]" and act: "set (active s) \<subseteq> {b..<?n}"
    and ids: "image_mset (id_of s) (mset (active s)) = image_mset (id_of s) (in_flight s)"
    using c by (simp_all add: conserved_def)
  have sub: "set_mset (mset (active s)) \<union> set_mset (in_flight s) \<subseteq> {b..<?n}"
    using act in_flight_valid [OF acc] by auto
  have "inj_on (id_of s) {b..<?n}"
    using d by (rule ids_inj_on)
  then have "inj_on (id_of s) (set_mset (mset (active s)) \<union> set_mset (in_flight s))"
    using sub by (rule inj_on_subset)
  with ids have "mset (active s) = in_flight s"
    by (rule image_mset_inj_eq)
  then show ?thesis using acc by (simp add: accounted_def)
qed

lemma views_ok_step:
  assumes v: "views_ok b n s" and c: "conserved b s'"
    and pv: "progress_views s' = progress_views s @ (if e then [getView s'] else [])"
    and ext: "\<exists>zs. map item_id (objs s') = map item_id (objs s) @ zs"
  shows "views_ok b n s'"
proof -
  have sub: "set (drop n (progress_views s')) \<subseteq> set (drop n (progress_views s)) \<union> {getView s'}"
    using set_drop_subset [of "n - length (progress_views s)" "[getView s']"] by (auto simp: pv)
  have tot: "view_total (getView s') + b = v_enqueued (getView s')"
    using conserved_total [OF c] by (simp add: view_total_def getView_def)
  have 1: "\<forall>v\<in>set (drop n (progress_views s')). view_total v + b = v_enqueued v"
    using v tot sub by (auto simp: views_ok_def)
  have 2: "\<forall>v\<in>set (drop n (progress_views s')). view_exact b v"
    if d: "distinct (map item_id (drop b (objs s')))"
  proof -
    obtain zs where zs: "map item_id (objs s') = map item_id (objs s) @ zs"
      using ext by blast
    have "map item_id (drop b (objs s')) = drop b (map item_id (objs s'))"
      by (simp add: drop_map)
    also have "\<dots> = map item_id (drop b (objs s)) @ drop (b - length (objs s)) zs"
      by (simp add: zs drop_map)
    finally have "distinct (map item_id (drop b (objs s)))"
      using d by simp
    then have old: "\<forall>v\<in>set (drop n (progress_views s)). view_exact b v"
      using v by (simp add: views_ok_def)
    have "view_exact b (getView s')"
      using conserved_exact [OF c d] by (simp add: view_exact_def getView_def)
    then show ?thesis using old sub by auto
  qed
  from 1 2 show ?thesis by (simp add: views_ok_def)
qed

lemma views_ok_same:
  "views_ok b n s \<Longrightarrow> progress_views s' = progress_views s \<Longrightarrow> objs s' = objs s \<Longrightarrow> views_ok b n s'"
  by (simp add: views_ok_def)

lemma getView_cong:
  "queue s' = queue s \<Longrightarrow> active s' = active s \<Longrightarrow> completed s' = completed s \<Longrightarrow> failed s' = failed s \<Longrightarrow>
   length (objs s') = length (objs s) \<Longrightarrow> getView s' = getView s"
  by (simp add: getView_def)

lemma progress_views_addToQueue:
  "progress_views (snd (addToQueue items s))
   = progress_views s @ (if onProgress s then [getView (snd (addToQueue items s))] else [])"
  by (simp add: addToQueue_def Let_def emitProgress_def record_call_def
      getView_def progress_views_def views_of_append)

lemma progress_views_processItem_begin:
  "progress_views (processItem_begin r s)
   = progress_views s @ (if onProgress s then [getView (processItem_begin r s)] else [])"
  by (simp add: processItem_begin_def Let_def emitProgress_def record_call_def modify_def
      getView_def progress_views_def views_of_append)

lemma progress_views_finally_block:
  "progress_views (finally_block r st s)
   = progress_views s @ (if onProgress s then [getView (finally_block r st s)] else [])"
  by (simp add: finally_block_def Let_def emitProgress_def record_call_def
      getView_def progress_views_def views_of_append)

lemma progress_views_on_success:
  "progress_views (on_success r st s)
   = progress_views s @ (if onProgress s then [getView (on_success r st s)] else [])"
  by (simp add: on_success_def progress_views_finally_block) (simp add: modify_def progress_views_def)

lemma progress_views_catch_block: "progress_views (catch_block r msg s) = progress_views s"
  by (simp add: catch_block_def Let_def record_call_def modify_def progress_views_def views_of_append)

lemma onProgress_catch_block: "onProgress (catch_block r msg s) = onProgress s"
  by (simp add: catch_block_def Let_def record_call_def modify_def)

lemma progress_views_on_failure:
  "progress_views (on_failure r st msg s)
   = progress_views s @ (if onProgress s then [getView (on_failure r st msg s)] else [])"
  by (simp add: on_failure_def progress_views_finally_block progress_views_catch_block onProgress_catch_block)





lemma pending_requeue:
  "(r, st) \<in> set ts \<Longrightarrow> st \<noteq> Delaying \<Longrightarrow> st' \<noteq> Delaying \<Longrightarrow>
   pending (remove1 (r, st) ts @ [(r, st')]) = pending ts"
  by (simp add: pending_append pending_single pending_remove1 pending_member)

lemma pending_remove_delaying:
  "(r, Delaying) \<in> set ts \<Longrightarrow> pending (remove1 (r, Delaying) ts) = pending ts"
  by (simp add: pending_remove1)

lemma cancel_free_inv_fold:
  assumes "cancel_free_inv b n s" and "Cancel \<notin> set evs"
  shows "cancel_free_inv b n (fold step evs s)"
proof (rule fold_step_preserves [where P = "cancel_free_inv b n" and C = False and A = True])
  show "cancel_free_inv b n s" by (rule assms(1))
  show "Cancel \<in> set evs \<Longrightarrow> False" using assms(2) by simp
  show "True" by simp
next
  fix s items assume "cancel_free_inv b n s"
  then have c: "conserved b s" and v: "views_ok b n s" by (simp_all add: cancel_free_inv_def)
  have "conserved b (snd (addToQueue items s))" using c by (rule conserved_addToQueue)
  moreover from v this have "views_ok b n (snd (addToQueue items s))"
    by (rule views_ok_step) (simp_all add: progress_views_addToQueue addToQueue_fields)
  ultimately show "cancel_free_inv b n (snd (addToQueue items s))" by (simp add: cancel_free_inv_def)
next
  fix s assume inv: "cancel_free_inv b n s" and q: "queue s \<noteq> []"
  let ?s1 = "s\<lparr>queue := tl (queue s), active := active s @ [hd (queue s)]\<rparr>"
  let ?s' = "processItem_begin (hd (queue s)) ?s1"
  from inv have c: "conserved b s" and v: "views_ok b n s" by (simp_all add: cancel_free_inv_def)
  have c': "conserved b ?s'" using c q by (rule conserved_iteration)
  have pv: "progress_views ?s' = progress_views s @ (if onProgress s then [getView ?s'] else [])"
    by (simp add: progress_views_processItem_begin) (simp add: progress_views_def)
  have "map item_id (objs ?s') = map item_id (objs s)"
    using ids_modify [of "\<lambda>it. it\<lparr>status := Downloading\<rparr>" "hd (queue s)" ?s1]
    by (simp add: processItem_begin_fields)
  then have "\<exists>zs. map item_id (objs ?s') = map item_id (objs s) @ zs" by simp
  with v c' pv have "views_ok b n ?s'" by (rule views_ok_step)
  with c' show "cancel_free_inv b n ?s'" by (simp add: cancel_free_inv_def)
next
  fix s :: manager and e assume "cancel_free_inv b n s"
  then show "cancel_free_inv b n (s\<lparr>isPaused := e\<rparr>)"
    by (simp add: cancel_free_inv_def conserved_fields [of "s\<lparr>isPaused := e\<rparr>" s]
        views_ok_def progress_views_def)
next
  fix s :: manager assume "cancel_free_inv b n s"
  then show "cancel_free_inv b n (s\<lparr>isCancelled := False, isPaused := False\<rparr>)"
    by (simp add: cancel_free_inv_def conserved_fields [of "s\<lparr>isCancelled := False, isPaused := False\<rparr>" s]
        views_ok_def progress_views_def)
next
  fix s :: manager assume "cancel_free_inv b n s"
  then show "cancel_free_inv b n (emitComplete s)"
    by (simp add: cancel_free_inv_def conserved_fields [of "emitComplete s" s] emitComplete_fields
        views_ok_def progress_views_emitComplete)
next
  fix s :: manager and ds assume "cancel_free_inv b n s"
  then show "cancel_free_inv b n (s\<lparr>drivers := ds\<rparr>)"
    by (simp add: cancel_free_inv_def conserved_fields [of "s\<lparr>drivers := ds\<rparr>" s]
        views_ok_def progress_views_def)
next
  fix s :: manager assume "False"
  then show "cancel_free_inv b n (cancel s)" by simp
next
  fix s r h assume inv: "cancel_free_inv b n s" and t: "(r, Waiting h) \<in> set (tasks s)"
  from inv have c: "conserved b s" and v: "views_ok b n s" by (simp_all add: cancel_free_inv_def)
  have c': "conserved b (on_success r (Waiting h) s)"
    using c t by (rule conserved_on_success) simp
  have "map item_id (objs (on_success r (Waiting h) s)) = map item_id (objs s)"
    by (simp add: on_success_fields ids_modify)
  then have "\<exists>zs. map item_id (objs (on_success r (Waiting h) s)) = map item_id (objs s) @ zs" by simp
  with v c' progress_views_on_success have "views_ok b n (on_success r (Waiting h) s)" by (rule views_ok_step)
  with c' show "cancel_free_inv b n (on_success r (Waiting h) s)" by (simp add: cancel_free_inv_def)
next
  fix s r st msg assume inv: "cancel_free_inv b n s" and t: "(r, st) \<in> set (tasks s)" and st: "st \<noteq> Delaying"
  from inv have c: "conserved b s" and v: "views_ok b n s" by (simp_all add: cancel_free_inv_def)
  have c': "conserved b (on_failure r st msg s)"
    using c t st by (rule conserved_on_failure)
  have "map item_id (objs (on_failure r st msg s)) = map item_id (objs s)"
    by (simp add: on_failure_fields ids_modify)
  then have "\<exists>zs. map item_id (objs (on_failure r st msg s)) = map item_id (objs s) @ zs" by simp
  with v c' progress_views_on_failure have "views_ok b n (on_failure r st msg s)" by (rule views_ok_step)
  with c' show "cancel_free_inv b n (on_failure r st msg s)" by (simp add: cancel_free_inv_def)
next
  fix s r h assume inv: "cancel_free_inv b n s" and t: "(r, Starting) \<in> set (tasks s)"
  let ?s' = "s\<lparr>tasks := remove1 (r, Starting) (tasks s) @ [(r, Waiting h)]\<rparr>"
  have "pending (tasks ?s') = pending (tasks s)"
    using t by (simp add: pending_requeue)
  then have "conserved b ?s' = conserved b s"
    by (intro conserved_fields) simp_all
  then show "cancel_free_inv b n ?s'"
    using inv by (simp add: cancel_free_inv_def views_ok_def progress_views_def)
next
  fix s r assume inv: "cancel_free_inv b n s" and t: "(r, Delaying) \<in> set (tasks s)"
  let ?s' = "s\<lparr>tasks := remove1 (r, Delaying) (tasks s)\<rparr>"
  have "pending (tasks ?s') = pending (tasks s)"
    using t by (simp add: pending_remove_delaying)
  then have "conserved b ?s' = conserved b s"
    by (intro conserved_fields) simp_all
  then show "cancel_free_inv b n ?s'"
    using inv by (simp add: cancel_free_inv_def views_ok_def progress_views_def)
qed

lemma cancel_free_inv_init:
  "in_flight m = {#} \<Longrightarrow> cancel_free_inv (length (objs m)) (length (progress_views m)) (init opts m)"
  by (simp add: cancel_free_inv_def conserved_def views_ok_def accounted_def in_flight_def
      progress_views_def init_def)

lemma cancel_free_inv_run_from:
  "in_flight m = {#} \<Longrightarrow> Cancel \<notin> set evs \<Longrightarrow>
   cancel_free_inv (length (objs m)) (length (progress_views m)) (run_from m opts evs)"
  unfolding run_from_def by (rule cancel_free_inv_fold) (rule cancel_free_inv_init)

lemma length_objs_step:
  "length (objs (step ev s)) = length (objs s) + (case ev of AddToQueue items \<Rightarrow> length items | _ \<Rightarrow> 0)"
proof (cases "\<exists>items. ev = AddToQueue items")
  case True
  then show ?thesis by (auto simp: step_def addToQueue_fields length_downloadItems)
next
  case False
  define n where "n = length (objs s)"
  have "length (objs (step ev s)) = n"
  proof (rule step_preserves [where P = "\<lambda>s. length (objs s) = n" and C = True and A = False])
    show "length (objs s) = n" by (simp add: n_def)
    show "\<exists>items. ev = AddToQueue items \<Longrightarrow> False" using False by simp
  qed (simp_all add: processItem_begin_fields on_success_fields on_failure_fields cancel_fields
        emitComplete_fields length_objs_modify)
  then show ?thesis using False by (cases ev) (simp_all add: n_def)
qed

lemma length_objs_fold: "length (objs (fold step evs s)) = length (objs s) + enqueued_count evs"
proof (induction evs arbitrary: s)
  case Nil
  then show ?case by simp
next
  case (Cons ev evs)
  then show ?case by (cases ev) (simp_all add: length_objs_step)
qed

lemma length_objs_run_from: "length (objs (run_from m opts evs)) = length (objs m) + enqueued_count evs"
  by (simp add: run_from_def length_objs_fold init_def)

lemma run_from_new: "run_from new_manager opts evs = run opts evs"
  by (simp add: run_from_def run_def)

text \<open>
  C1, as amended.  \<^verbatim>\<open>init\<close> is called on a manager \<open>m\<close> that has no invocation of
  \<^verbatim>\<open>processItem\<close> waiting for its download to settle: a newly constructed manager, or
  one whose earlier downloads have all settled.  The events that follow contain no
  \<^verbatim>\<open>cancel\<close>.  Then at every suspension point (the state after any such list of events)
  and at every call of the progress callback since that \<^verbatim>\<open>init\<close>, the sizes of the four
  collections add up to the number of items enqueued since \<^verbatim>\<open>init\<close>.  When the ids of
  the items enqueued since \<^verbatim>\<open>init\<close> are pairwise distinct, every one of these items is
  in exactly one of the four collections, at the same points.
\<close>

theorem conservation:
  assumes "in_flight m = {#}" and "Cancel \<notin> set evs"
  shows "length (objs (run_from m opts evs)) = length (objs m) + enqueued_count evs
    \<and> length (queue (run_from m opts evs)) + length (active (run_from m opts evs))
        + length (completed (run_from m opts evs)) + length (failed (run_from m opts evs))
        = enqueued_count evs
    \<and> (\<forall>v\<in>set (views_since m (run_from m opts evs)). view_total v + length (objs m) = v_enqueued v)
    \<and> (distinct (map item_id (drop (length (objs m)) (objs (run_from m opts evs)))) \<longrightarrow>
         mset (queue (run_from m opts evs)) + mset (active (run_from m opts evs))
           + mset (completed (run_from m opts evs)) + mset (failed (run_from m opts evs))
           = mset [length (objs m)..<length (objs m) + enqueued_count evs]
         \<and> (\<forall>v\<in>set (views_since m (run_from m opts evs)). view_exact (length (objs m)) v))"
proof -
  let ?s = "run_from m opts evs"
  have inv: "cancel_free_inv (length (objs m)) (length (progress_views m)) ?s"
    using assms by (rule cancel_free_inv_run_from)
  then have c: "conserved (length (objs m)) ?s"
    and v: "views_ok (length (objs m)) (length (progress_views m)) ?s"
    by (simp_all add: cancel_free_inv_def)
  have len: "length (objs ?s) = length (objs m) + enqueued_count evs"
    by (rule length_objs_run_from)
  have tot: "length (queue ?s) + length (active ?s) + length (completed ?s) + length (failed ?s)
             = enqueued_count evs"
    using conserved_total [OF c] len by simp
  show ?thesis
    using len tot conserved_exact [OF c] v
    by (simp add: views_ok_def views_since_def)
qed

text \<open>
  The theorem at a second download: after the first example run no download is
  unsettled, \<^verbatim>\<open>init\<close> is called again and two more items are enqueued under the ids of
  the first two; the first of them is completed and the second is queued again.
\<close>

theorem conservation_witness:
  "in_flight (run example_options example_run) = {#}
   \<and> Cancel \<notin> set second_run
   \<and> length (objs (run example_options example_run)) = 2
   \<and> distinct (map item_id (drop 2 (objs (run_from (run example_options example_run) example_options second_run))))
   \<and> enqueued_count second_run = 2
   \<and> length (queue (run_from (run example_options example_run) example_options second_run))
       + length (active (run_from (run example_options example_run) example_options second_run))
       + length (completed (run_from (run example_options example_run) example_options second_run))
       + length (failed (run_from (run example_options example_run) example_options second_run)) = 2
   \<and> mset (queue (run_from (run example_options example_run) example_options second_run))
       + mset (active (run_from (run example_options example_run) example_options second_run))
       + mset (completed (run_from (run example_options example_run) example_options second_run))
       + mset (failed (run_from (run example_options example_run) example_options second_run))
       = mset [2..<4]
   \<and> length (views_since (run example_options example_run)
        (run_from (run example_options example_run) example_options second_run)) = 5
   \<and> list_all (view_exact 2) (views_since (run example_options example_run)
        (run_from (run example_options example_run) example_options second_run))"
proof -
  define m where "m = run example_options example_run"
  have f: "in_flight m = {#}"
    by (simp add: m_def example_run_def in_flight_def pending_def eval_defs)
  have c: "Cancel \<notin> set second_run" by (simp add: second_run_def)
  have b: "length (objs m) = 2"
    by (simp add: m_def example_run_def eval_defs)
  have d: "distinct (map item_id (drop 2 (objs (run_from m example_options second_run))))"
    by (simp add: m_def example_run_def second_run_def run_from_def eval_defs)
  have n: "enqueued_count second_run = 2" by (simp add: second_run_def)
  have l: "length (views_since m (run_from m example_options second_run)) = 5"
    by (simp add: m_def example_run_def second_run_def run_from_def views_since_def eval_defs)
  show ?thesis
    using conservation [OF f c, of example_options] f c b d n l
    unfolding m_def by (simp add: list_all_iff)
qed

text \<open>
  C1 as stated fails, in two ways.  In the run with the duplicate id nothing is
  cancelled and two items are enqueued with the same id; when the second one completes,
  \<^verbatim>\<open>findIndex\<close> finds the first one and \<^verbatim>\<open>splice\<close> removes it.  The progress callback
  then sees the second item both active and completed, and the first item in no
  collection.  In the other run \<^verbatim>\<open>init\<close> is called for a new download while two
  downloads of the one before are not settled, and nothing has been cancelled or is
  cancelled later; one item is enqueued and started, and when an old download completes,
  its item is added to the completed collection: the four collections hold two items,
  and one has been enqueued.  The same happens when the download before was cancelled.
\<close>

theorem conservation_counterexample:
  "Cancel \<notin> set duplicate_id_run
   \<and> enqueued_count duplicate_id_run = 2
   \<and> queue (run example_options duplicate_id_run) = []
   \<and> active (run example_options duplicate_id_run) = [1]
   \<and> completed (run example_options duplicate_id_run) = [1]
   \<and> failed (run example_options duplicate_id_run) = []
   \<and> last (progress_views (run example_options duplicate_id_run))
       = \<lparr> v_queue = [], v_active = [1], v_completed = [1], v_failed = [], v_enqueued = 2 \<rparr>
   \<and> \<not> view_exact 0 (last (progress_views (run example_options duplicate_id_run)))
   \<and> Cancel \<notin> set unsettled_run
   \<and> tasks (run example_options unsettled_run) = [(0, Starting), (1, Waiting 8)]
   \<and> length (objs (run example_options unsettled_run)) = 2
   \<and> Cancel \<notin> set next_run
   \<and> enqueued_count next_run = 1
   \<and> queue (run_from (run example_options unsettled_run) example_options next_run) = []
   \<and> active (run_from (run example_options unsettled_run) example_options next_run) = [2]
   \<and> completed (run_from (run example_options unsettled_run) example_options next_run) = [1]
   \<and> failed (run_from (run example_options unsettled_run) example_options next_run) = []
   \<and> last (progress_views (run_from (run example_options unsettled_run) example_options next_run))
       = \<lparr> v_queue = [], v_active = [2], v_completed = [1], v_failed = [], v_enqueued = 3 \<rparr>
   \<and> active (run_from (run example_options (unsettled_run @ [Cancel])) example_options next_run) = [2]
   \<and> completed (run_from (run example_options (unsettled_run @ [Cancel])) example_options next_run) = [1]"
proof -
  have 1: "Cancel \<notin> set duplicate_id_run"
    "enqueued_count duplicate_id_run = 2"
    "queue (run example_options duplicate_id_run) = []"
    "active (run example_options duplicate_id_run) = [1]"
    "completed (run example_options duplicate_id_run) = [1]"
    "failed (run example_options duplicate_id_run) = []"
    "last (progress_views (run example_options duplicate_id_run))
       = \<lparr> v_queue = [], v_active = [1], v_completed = [1], v_failed = [], v_enqueued = 2 \<rparr>"
    "\<not> view_exact 0 (last (progress_views (run example_options duplicate_id_run)))"
    by (simp_all add: duplicate_id_run_def eval_defs view_exact_def)
  have 2: "Cancel \<notin> set unsettled_run"
    "tasks (run example_options unsettled_run) = [(0, Starting), (1, Waiting 8)]"
    "length (objs (run example_options unsettled_run)) = 2"
    by (simp_all add: unsettled_run_def eval_defs)
  have 3: "Cancel \<notin> set next_run" "enqueued_count next_run = 1"
    by (simp_all add: next_run_def)
  have 4: "queue (run_from (run example_options unsettled_run) example_options next_run) = []"
    "active (run_from (run example_options unsettled_run) example_options next_run) = [2]"
    "completed (run_from (run example_options unsettled_run) example_options next_run) = [1]"
    "failed (run_from (run example_options unsettled_run) example_options next_run) = []"
    "last (progress_views (run_from (run example_options unsettled_run) example_options next_run))
       = \<lparr> v_queue = [], v_active = [2], v_completed = [1], v_failed = [], v_enqueued = 3 \<rparr>"
    by (simp_all add: unsettled_run_def next_run_def run_from_def eval_defs)
  have 5: "active (run_from (run example_options (unsettled_run @ [Cancel])) example_options next_run) = [2]"
    "completed (run_from (run example_options (unsettled_run @ [Cancel])) example_options next_run) = [1]"
    by (simp_all add: unsettled_run_def next_run_def run_from_def eval_defs)
  from 1 2 3 4 5 show ?thesis by (intro conjI)
qed

section \<open>References stay valid\<close>

text \<open>
  With \<^verbatim>\<open>cancel\<close> items are dropped, and no item is ever accounted for twice.
\<close>

lemma valid_refs_fields:
  "queue s' = queue s \<Longrightarrow> active s' = active s \<Longrightarrow> completed s' = completed s \<Longrightarrow> failed s' = failed s \<Longrightarrow>
   pending (tasks s') = pending (tasks s) \<Longrightarrow> length (objs s') = length (objs s) \<Longrightarrow> valid_refs s' = valid_refs s"
  by (simp add: valid_refs_def accounted_def in_flight_def)

lemma valid_refs_settle:
  assumes v: "valid_refs s" and t: "(r, st) \<in> set (tasks s)" and st: "st \<noteq> Delaying"
    and moved: "mset (queue s') + mset (completed s') + mset (failed s')
                = mset (queue s) + mset (completed s) + mset (failed s) + {#r#}"
    and a: "active s' = remove_by_id (objs s) (item_id (objs s ! r)) (active s)"
    and ts: "tasks s' = remove1 (r, st) (tasks s) @ [(r, Delaying)]"
    and len: "length (objs s') = length (objs s)"
  shows "valid_refs s'"
proof -
  have mem: "r \<in># in_flight s"
    using t st by (simp add: in_flight_def pending_member)
  have fl: "in_flight s' = in_flight s - {#r#}"
    using t st by (simp add: in_flight_def ts pending_append pending_single pending_remove1)
  define A where "A = mset (queue s') + mset (completed s') + mset (failed s')"
  define B where "B = mset (queue s) + mset (completed s) + mset (failed s)"
  define F where "F = in_flight s"
  have AB: "A = B + {#r#}"
    unfolding A_def B_def by (rule moved)
  have e1: "accounted s' = A + (F - {#r#})"
    by (simp add: accounted_def fl A_def F_def)
  have e2: "accounted s = B + F"
    by (simp add: accounted_def B_def F_def)
  have "{#r#} + (F - {#r#}) = F"
    using mem by (simp add: F_def)
  then have "A + (F - {#r#}) = B + F"
    unfolding AB by (simp only: add.assoc)
  then have "accounted s' = accounted s" using e1 e2 by simp
  moreover have "set (active s') \<subseteq> set (active s)"
    unfolding a by (rule remove_by_id_subset)
  ultimately show ?thesis using v by (auto simp: valid_refs_def len)
qed

lemma valid_refs_fold: "valid_refs s \<Longrightarrow> valid_refs (fold step evs s)"
proof (rule fold_step_preserves [where P = valid_refs and C = True and A = True])
  fix s items assume v: "valid_refs s"
  let ?n = "length (objs s)"
  have "accounted (snd (addToQueue items s)) = accounted s + mset [?n..<?n + length items]"
    by (simp add: accounted_def in_flight_def addToQueue_fields)
  also have "\<dots> \<subseteq># mset [0..<?n] + mset [?n..<?n + length items]"
    using v by (simp add: valid_refs_def)
  also have "\<dots> = mset ([0..<?n] @ [?n..<?n + length items])" by simp
  also have "[0..<?n] @ [?n..<?n + length items] = [0..<?n + length items]"
    by (rule upt_add_eq_append [symmetric]) simp
  finally have "accounted (snd (addToQueue items s)) \<subseteq># mset [0..<length (objs (snd (addToQueue items s)))]"
    by (simp add: addToQueue_fields length_downloadItems)
  moreover have "set (active (snd (addToQueue items s))) \<subseteq> {..<length (objs (snd (addToQueue items s)))}"
    using v by (auto simp: valid_refs_def addToQueue_fields)
  ultimately show "valid_refs (snd (addToQueue items s))" by (simp add: valid_refs_def)
next
  fix s assume v: "valid_refs s" and q: "queue s \<noteq> []"
  let ?r = "hd (queue s)"
  let ?s' = "processItem_begin ?r (s\<lparr>queue := tl (queue s), active := active s @ [?r]\<rparr>)"
  have qs: "mset (queue s) = mset (tl (queue s)) + {#?r#}"
    using q by (cases "queue s") simp_all
  have acc: "accounted ?s' = accounted s"
    by (simp add: accounted_def in_flight_def processItem_begin_fields(1-5) pending_append pending_single qs)
  have len: "length (objs ?s') = length (objs s)"
    by (simp add: processItem_begin_fields length_objs_modify)
  have "?r \<in># accounted s" using q by (simp add: accounted_def)
  then have "?r \<in># mset [0..<length (objs s)]"
    using v unfolding valid_refs_def by (blast dest: mset_subset_eqD)
  then have r: "?r < length (objs s)" by simp
  show "valid_refs ?s'"
    using v r unfolding valid_refs_def acc len by (simp add: processItem_begin_fields(1-5))
next
  fix s r h assume "valid_refs s" "(r, Waiting h) \<in> set (tasks s)"
  then show "valid_refs (on_success r (Waiting h) s)"
    by (rule valid_refs_settle) (simp_all add: on_success_fields length_objs_modify)
next
  fix s r st msg assume "valid_refs s" "(r, st) \<in> set (tasks s)" "st \<noteq> Delaying"
  then show "valid_refs (on_failure r st msg s)"
    by (rule valid_refs_settle) (simp_all add: on_failure_fields length_objs_modify)
next
  fix s assume v: "valid_refs s"
  have "accounted (cancel s) \<subseteq># accounted s"
    by (simp add: accounted_def in_flight_def cancel_fields)
  then show "valid_refs (cancel s)"
    using v by (auto simp: valid_refs_def cancel_fields intro: subset_mset.order_trans)
next
  fix s r h assume v: "valid_refs s" and t: "(r, Starting) \<in> set (tasks s)"
  let ?s' = "s\<lparr>tasks := remove1 (r, Starting) (tasks s) @ [(r, Waiting h)]\<rparr>"
  have "pending (tasks ?s') = pending (tasks s)" using t by (simp add: pending_requeue)
  then have "valid_refs ?s' = valid_refs s" by (intro valid_refs_fields) simp_all
  then show "valid_refs ?s'" using v by simp
next
  fix s r assume v: "valid_refs s" and t: "(r, Delaying) \<in> set (tasks s)"
  let ?s' = "s\<lparr>tasks := remove1 (r, Delaying) (tasks s)\<rparr>"
  have "pending (tasks ?s') = pending (tasks s)" using t by (simp add: pending_remove_delaying)
  then have "valid_refs ?s' = valid_refs s" by (intro valid_refs_fields) simp_all
  then show "valid_refs ?s'" using v by simp
qed (simp_all add: valid_refs_fields [of _ s] valid_refs_def accounted_def in_flight_def emitComplete_fields)

lemma valid_refs_run: "valid_refs (run opts evs)"
  unfolding run_def
  by (rule valid_refs_fold)
     (simp add: valid_refs_def accounted_def in_flight_def pending_def init_def new_manager_def)

section \<open>Retry bound\<close>

text \<open>
  The retry counter is incremented only under the test \<^verbatim>\<open>item.retries < this.retryAttempts\<close>.
\<close>

lemma downloadItems_fresh:
  "it \<in> set (downloadItems items) \<Longrightarrow> retries it = 0 \<and> downloadId it = None \<and> status it = Queued"
  by (auto simp: downloadItems_def make_item_def)

lemma retries_bounded_nth:
  "retries_bounded R s \<Longrightarrow> q < length (objs s) \<Longrightarrow>
   0 \<le> retries (objs s ! q) \<and> retries (objs s ! q) \<le> max 0 R \<and> downloadId (objs s ! q) = None"
  by (simp add: retries_bounded_def)

lemma retries_bounded_modify:
  assumes b: "retries_bounded R s"
    and f: "q < length (objs s) \<Longrightarrow>
            0 \<le> retries (f (objs s ! q)) \<and> retries (f (objs s ! q)) \<le> max 0 R
            \<and> downloadId (f (objs s ! q)) = None"
    and r: "retryAttempts s' = retryAttempts s" and o: "objs s' = objs (modify q f s)"
  shows "retries_bounded R s'"
proof -
  have "0 \<le> retries it \<and> retries it \<le> max 0 R \<and> downloadId it = None"
    if "it \<in> set (objs (modify q f s))" for it
    using _ f that
  proof (rule objs_modify_all)
    show "\<And>it. it \<in> set (objs s) \<Longrightarrow> 0 \<le> retries it \<and> retries it \<le> max 0 R \<and> downloadId it = None"
      using b by (simp add: retries_bounded_def)
  qed
  then show ?thesis using b r o by (simp add: retries_bounded_def)
qed

lemma retries_bounded_same:
  "retries_bounded R s \<Longrightarrow> objs s' = objs s \<Longrightarrow> retryAttempts s' = retryAttempts s \<Longrightarrow> retries_bounded R s'"
  by (simp add: retries_bounded_def)

lemma retries_bounded_addToQueue:
  "retries_bounded R s \<Longrightarrow> retries_bounded R (snd (addToQueue items s))"
  using downloadItems_fresh [of _ items]
  by (auto simp: retries_bounded_def addToQueue_fields)

lemma retries_bounded_processItem_begin:
  assumes b: "retries_bounded R s" and o: "objs s1 = objs s" and r: "retryAttempts s1 = retryAttempts s"
  shows "retries_bounded R (processItem_begin q s1)"
proof -
  from b o r have b1: "retries_bounded R s1" by (simp add: retries_bounded_def)
  then show ?thesis
  proof (rule retries_bounded_modify)
    show "retryAttempts (processItem_begin q s1) = retryAttempts s1"
      by (simp add: processItem_begin_fields)
    show "objs (processItem_begin q s1) = objs (modify q (\<lambda>it. it\<lparr>status := Downloading\<rparr>) s1)"
      by (simp add: processItem_begin_fields)
    show "q < length (objs s1) \<Longrightarrow>
        0 \<le> retries ((objs s1 ! q)\<lparr>status := Downloading\<rparr>)
        \<and> retries ((objs s1 ! q)\<lparr>status := Downloading\<rparr>) \<le> max 0 R
        \<and> downloadId ((objs s1 ! q)\<lparr>status := Downloading\<rparr>) = None"
      using retries_bounded_nth [OF b1, of q] by simp
  qed
qed

lemma retries_bounded_on_success:
  assumes b: "retries_bounded R s"
  shows "retries_bounded R (on_success r st s)"
  using b
proof (rule retries_bounded_modify)
  show "retryAttempts (on_success r st s) = retryAttempts s"
    by (simp add: on_success_fields)
  show "objs (on_success r st s) = objs (modify r (\<lambda>it. it\<lparr>status := Completed\<rparr>) s)"
    by (simp add: on_success_fields)
  show "r < length (objs s) \<Longrightarrow>
      0 \<le> retries ((objs s ! r)\<lparr>status := Completed\<rparr>)
      \<and> retries ((objs s ! r)\<lparr>status := Completed\<rparr>) \<le> max 0 R
      \<and> downloadId ((objs s ! r)\<lparr>status := Completed\<rparr>) = None"
    using retries_bounded_nth [OF b, of r] by simp
qed

lemma retries_bounded_on_failure:
  assumes b: "retries_bounded R s"
  shows "retries_bounded R (on_failure r st msg s)"
  using b
proof (rule retries_bounded_modify)
  let ?f = "if retries (objs s ! r) < retryAttempts s
            then (\<lambda>it. it\<lparr>retries := retries it + 1, status := Queued\<rparr>)
            else (\<lambda>it. it\<lparr>status := Failed, error := Some msg\<rparr>)"
  show "retryAttempts (on_failure r st msg s) = retryAttempts s"
    by (simp add: on_failure_fields)
  show "objs (on_failure r st msg s) = objs (modify r ?f s)"
    by (simp only: on_failure_fields)
  have R: "retryAttempts s = R" using b by (simp add: retries_bounded_def)
  show "0 \<le> retries (?f (objs s ! r)) \<and> retries (?f (objs s ! r)) \<le> max 0 R
        \<and> downloadId (?f (objs s ! r)) = None" if "r < length (objs s)"
  proof (cases "retries (objs s ! r) < retryAttempts s")
    case True
    then show ?thesis using retries_bounded_nth [OF b that] R by simp
  next
    case False
    then show ?thesis using retries_bounded_nth [OF b that] by simp
  qed
qed

lemma retries_bounded_fold: "retries_bounded R s \<Longrightarrow> retries_bounded R (fold step evs s)"
proof (rule fold_step_preserves [where P = "retries_bounded R" and C = True and A = True])
  fix s items assume "retries_bounded R s"
  then show "retries_bounded R (snd (addToQueue items s))"
    by (rule retries_bounded_addToQueue)
next
  fix s assume "retries_bounded R s"
  then show "retries_bounded R (processItem_begin (hd (queue s))
      (s\<lparr>queue := tl (queue s), active := active s @ [hd (queue s)]\<rparr>))"
    by (rule retries_bounded_processItem_begin) simp_all
next
  fix s r h assume "retries_bounded R s"
  then show "retries_bounded R (on_success r (Waiting h) s)"
    by (rule retries_bounded_on_success)
next
  fix s r st msg assume b: "retries_bounded R s"
  then show "retries_bounded R (on_failure r st msg s)"
    by (rule retries_bounded_on_failure)
next
  fix s assume "retries_bounded R s"
  then show "retries_bounded R (cancel s)"
    by (rule retries_bounded_same) (simp_all add: cancel_fields)
next
  fix s assume "retries_bounded R s"
  then show "retries_bounded R (emitComplete s)"
    by (rule retries_bounded_same) (simp_all add: emitComplete_fields)
qed (simp_all add: retries_bounded_def)

lemma retries_bounded_run:
  "retries_bounded (or_number (opt_retryAttempts opts) 3) (run opts evs)"
  unfolding run_def
  by (rule retries_bounded_fold) (simp add: retries_bounded_def init_def new_manager_def)

subsection \<open>The failed collection only grows\<close>


lemma run_append: "run opts (evs @ evs') = fold step evs' (run opts evs)"
  by (simp add: run_def)






section \<open>Bounded concurrency\<close>


lemma slots_bounded_same:
  "slots_bounded M s \<Longrightarrow> maxConcurrent s' = maxConcurrent s \<Longrightarrow> active s' = active s \<Longrightarrow>
   progress_views s' = progress_views s \<Longrightarrow> slots_bounded M s'"
  by (simp add: slots_bounded_def)














section \<open>Cancellation\<close>

subsection \<open>Calls of the abort primitive\<close>

lemma aborts_append: "aborts (xs @ ys) = aborts xs @ aborts ys"
  by (induction xs rule: aborts.induct) simp_all

lemma aborts_emitProgress: "aborts (trace (emitProgress s)) = aborts (trace s)"
  by (simp add: emitProgress_def record_call_def aborts_append)

lemma aborts_emitComplete: "aborts (trace (emitComplete s)) = aborts (trace s)"
  by (simp add: emitComplete_def record_call_def aborts_append)

lemma aborts_addToQueue: "aborts (trace (snd (addToQueue items s))) = aborts (trace s)"
  by (simp add: addToQueue_def Let_def emitProgress_def record_call_def aborts_append)

lemma aborts_processItem_begin: "aborts (trace (processItem_begin r s)) = aborts (trace s)"
  by (simp add: processItem_begin_def Let_def emitProgress_def record_call_def modify_def aborts_append)

lemma aborts_finally_block: "aborts (trace (finally_block r st s)) = aborts (trace s)"
  by (simp add: finally_block_def Let_def emitProgress_def record_call_def aborts_append)

lemma aborts_on_success: "aborts (trace (on_success r st s)) = aborts (trace s)"
  by (simp add: on_success_def aborts_finally_block modify_def)

lemma aborts_catch_block: "aborts (trace (catch_block r msg s)) = aborts (trace s)"
  by (simp add: catch_block_def Let_def record_call_def modify_def aborts_append)

lemma aborts_on_failure: "aborts (trace (on_failure r st msg s)) = aborts (trace s)"
  by (simp add: on_failure_def aborts_finally_block aborts_catch_block)

lemma cancel_calls_empty:
  assumes "valid_refs s" and "retries_bounded R s"
  shows "cancel_calls s = []"
proof -
  have "downloadId (objs s ! r) = None" if "r \<in> set (active s)" for r
  proof -
    have "r < length (objs s)" using assms(1) that by (auto simp: valid_refs_def)
    then show ?thesis using assms(2) by (simp add: retries_bounded_def)
  qed
  then show ?thesis
    by (simp add: cancel_calls_def List.map_filter_def filter_empty_conv)
qed

lemma aborts_cancel:
  "valid_refs s \<Longrightarrow> retries_bounded R s \<Longrightarrow> aborts (trace (cancel s)) = aborts (trace s)"
  by (simp add: cancel_def Let_def cancel_calls_empty [where R = R] retries_bounded_def valid_refs_def
      accounted_def in_flight_def)

lemma aborts_step:
  assumes v: "valid_refs s" and b: "retries_bounded R s" and a: "aborts (trace s) = []"
  shows "aborts (trace (step ev s)) = []"
proof (cases "ev = Cancel")
  case True
  then show ?thesis using aborts_cancel [OF v b] a by (simp add: step_def)
next
  case False
  show ?thesis
    by (rule step_preserves [where P = "\<lambda>s. aborts (trace s) = []" and C = False and A = True])
       (use a False in \<open>simp_all add: aborts_addToQueue aborts_processItem_begin aborts_emitComplete
          aborts_on_success aborts_on_failure\<close>)
qed

lemma aborts_run: "aborts (trace (run opts evs)) = []"
proof (induction evs rule: rev_induct)
  case Nil
  then show ?case by (simp add: run_def init_def new_manager_def)
next
  case (snoc ev evs)
  have "aborts (trace (step ev (run opts evs))) = []"
    using valid_refs_run retries_bounded_run snoc by (rule aborts_step)
  then show ?case by (simp add: run_append)
qed

text \<open>
  C3 fails on the code.  \<^verbatim>\<open>cancel\<close> does empty the queued and the active collection,
  but it calls \<^verbatim>\<open>chrome.downloads.cancel\<close> only for an active item that has a
  \<^verbatim>\<open>downloadId\<close> property, and no code ever assigns that property: \<^verbatim>\<open>processItem\<close>
  keeps the handle in a local constant.  So no run ever calls the abort primitive.  In
  the example the only item is active with the download handle 7 when \<^verbatim>\<open>cancel\<close> is
  called, and nothing is aborted.
\<close>

theorem cancel_never_aborts:
  "aborts (trace (run opts evs)) = []
   \<and> queue (run opts (evs @ [Cancel])) = []
   \<and> active (run opts (evs @ [Cancel])) = []
   \<and> active (run example_options cancel_example) = [0]
   \<and> tasks (run example_options cancel_example) = [(0, Waiting 7)]
   \<and> downloadId (objs (run example_options cancel_example) ! 0) = None
   \<and> aborts (trace (run example_options (cancel_example @ [Cancel]))) = []"
proof -
  have "queue (run opts (evs @ [Cancel])) = []" "active (run opts (evs @ [Cancel])) = []"
    by (simp_all add: run_append step_def cancel_fields)
  moreover have "active (run example_options cancel_example) = [0]"
    "tasks (run example_options cancel_example) = [(0, Waiting 7)]"
    "downloadId (objs (run example_options cancel_example) ! 0) = None"
    by (simp_all add: cancel_example_def eval_defs)
  ultimately show ?thesis by (simp add: aborts_run)
qed

subsection \<open>Settlement after cancellation\<close>

lemma trace_on_failure_exhausted:
  "\<not> retries (objs s ! r) < retryAttempts s \<Longrightarrow> onError s \<Longrightarrow>
   ErrorCb r msg \<in> set (trace (on_failure r st msg s))"
  by (simp add: on_failure_def catch_block_def finally_block_def emitProgress_def record_call_def
      modify_def Let_def)

text \<open>
  C4, as amended.  After \<^verbatim>\<open>cancel\<close> the settlement of an abandoned invocation is not
  ignored: \<^verbatim>\<open>processItem\<close> never reads the \<^verbatim>\<open>isCancelled\<close> flag.  A download that
  completes appends its item to the completed collection; a failure with retries
  remaining puts the item at the front of the queued collection; a failure with none
  remaining appends it to the failed collection and calls the error callback, when there
  is one.  A settlement adds nothing to the active collection.
\<close>

theorem settlement_after_cancel:
  assumes "isCancelled s"
  shows "((r, Waiting h) \<in> set (tasks s) \<longrightarrow>
          completed (step (DownloadPolled r h (Found Complete e)) s) = completed s @ [r])
    \<and> ((r, Starting) \<in> set (tasks s) \<and> retries (objs s ! r) < retryAttempts s \<longrightarrow>
          queue (step (DownloadStarted r (LastError m)) s) = r # queue s)
    \<and> ((r, Starting) \<in> set (tasks s) \<and> \<not> retries (objs s ! r) < retryAttempts s \<longrightarrow>
          failed (step (DownloadStarted r (LastError m)) s) = failed s @ [r]
          \<and> (onError s \<longrightarrow> ErrorCb r m \<in> set (trace (step (DownloadStarted r (LastError m)) s))))
    \<and> ((r, Waiting h) \<in> set (tasks s) \<and> retries (objs s ! r) < retryAttempts s \<longrightarrow>
          queue (step (DownloadPolled r h (Found Interrupted e)) s) = r # queue s)
    \<and> ((r, Waiting h) \<in> set (tasks s) \<and> \<not> retries (objs s ! r) < retryAttempts s \<longrightarrow>
          failed (step (DownloadPolled r h (Found Interrupted e)) s) = failed s @ [r]
          \<and> (onError s \<longrightarrow> ErrorCb r (or_string e ''Download interrupted'')
                \<in> set (trace (step (DownloadPolled r h (Found Interrupted e)) s))))
    \<and> set (active (step (DownloadPolled r h res) s)) \<subseteq> set (active s)
    \<and> set (active (step (DownloadStarted r sres) s)) \<subseteq> set (active s)"
proof -
  have a1: "set (active (step (DownloadPolled r h res) s)) \<subseteq> set (active s)"
    using remove_by_id_subset [of "objs s" "item_id (objs s ! r)" "active s"]
    by (auto simp: step_def resume_polled_def on_success_fields on_failure_fields
        split: search_result.splits dl_state.splits)
  have a2: "set (active (step (DownloadStarted r sres) s)) \<subseteq> set (active s)"
    using remove_by_id_subset [of "objs s" "item_id (objs s ! r)" "active s"]
    by (auto simp: step_def resume_started_def on_failure_fields split: sum.splits)
  show ?thesis
    using a1 a2
    by (simp add: step_def resume_polled_def resume_started_def downloadFile_def
        on_success_fields on_failure_fields trace_on_failure_exhausted)
qed

text \<open>The state of the example right after \<^verbatim>\<open>cancel\<close>: three invocations are still suspended.\<close>

lemma abandoned_state:
  "run errors_only abandoned_run =
     \<lparr> queue = [], active = [], completed = [], failed = [],
       maxConcurrent = 3, downloadDelay = 200, retryAttempts = 3,
       isPaused = False, isCancelled = True,
       onProgress = False, onComplete = False, onError = True, onFileStart = False,
       basePath = ''Civitai'',
       objs =
         [\<lparr> item_id = ''img_0'', url = ''https://cdn.example/a.jpg'', filename = ''a.jpg'',
             subfolder = [], retries = 0, status = Downloading, error = None, downloadId = None \<rparr>,
          \<lparr> item_id = ''img_1'', url = ''https://cdn.example/b.jpg'', filename = ''b.jpg'',
             subfolder = [], retries = 0, status = Downloading, error = None, downloadId = None \<rparr>,
          \<lparr> item_id = ''img_2'', url = ''https://cdn.example/c.jpg'', filename = ''c.jpg'',
             subfolder = [], retries = 3, status = Downloading, error = None, downloadId = None \<rparr>],
       tasks = [(1, Starting), (2, Delaying), (2, Delaying), (2, Delaying), (2, Starting), (0, Waiting 7)],
       drivers = [Poll],
       trace =
         [ChromeDownload ''https://cdn.example/a.jpg'' ''Civitai/a.jpg'',
          ChromeDownload ''https://cdn.example/b.jpg'' ''Civitai/b.jpg'',
          ChromeDownload ''https://cdn.example/c.jpg'' ''Civitai/c.jpg'',
          ChromeDownload ''https://cdn.example/c.jpg'' ''Civitai/c.jpg'',
          ChromeDownload ''https://cdn.example/c.jpg'' ''Civitai/c.jpg'',
          ChromeDownload ''https://cdn.example/c.jpg'' ''Civitai/c.jpg''] \<rparr>"
  by (simp add: abandoned_run_def errors_only_def eval_defs)

text \<open>The theorem at the three invocations that the example leaves suspended.\<close>

theorem settlement_after_cancel_witness:
  "isCancelled (run errors_only abandoned_run)
   \<and> (0, Waiting 7) \<in> set (tasks (run errors_only abandoned_run))
   \<and> completed (step (DownloadPolled 0 7 (Found Complete None)) (run errors_only abandoned_run)) = [0]
   \<and> (1, Starting) \<in> set (tasks (run errors_only abandoned_run))
   \<and> retries (objs (run errors_only abandoned_run) ! 1) < retryAttempts (run errors_only abandoned_run)
   \<and> queue (step (DownloadStarted 1 (LastError ''network'')) (run errors_only abandoned_run)) = [1]
   \<and> (2, Starting) \<in> set (tasks (run errors_only abandoned_run))
   \<and> \<not> retries (objs (run errors_only abandoned_run) ! 2) < retryAttempts (run errors_only abandoned_run)
   \<and> failed (step (DownloadStarted 2 (LastError ''network'')) (run errors_only abandoned_run)) = [2]
   \<and> ErrorCb 2 ''network''
       \<in> set (trace (step (DownloadStarted 2 (LastError ''network'')) (run errors_only abandoned_run)))"
proof -
  define s where "s = run errors_only abandoned_run"
  have c: "isCancelled s"
    and t: "(0, Waiting 7) \<in> set (tasks s)" "(1, Starting) \<in> set (tasks s)" "(2, Starting) \<in> set (tasks s)"
    and r1: "retries (objs s ! 1) < retryAttempts s"
    and r2: "\<not> retries (objs s ! 2) < retryAttempts s"
    and e: "onError s" "queue s = []" "completed s = []" "failed s = []"
    by (simp_all add: s_def abandoned_state)
  have 0: "completed (step (DownloadPolled 0 7 (Found Complete None)) s) = [0]"
    using settlement_after_cancel [OF c, of 0 7 None "''network''" "NotFound" "LastError ''network''"] t e
    by simp
  have 1: "queue (step (DownloadStarted 1 (LastError ''network'')) s) = [1]"
    using settlement_after_cancel [OF c, of 1 7 None "''network''" "NotFound" "LastError ''network''"] t r1 e
    by simp
  have 2: "failed (step (DownloadStarted 2 (LastError ''network'')) s) = [2]"
    "ErrorCb 2 ''network'' \<in> set (trace (step (DownloadStarted 2 (LastError ''network'')) s))"
    using settlement_after_cancel [OF c, of 2 7 None "''network''" "NotFound" "LastError ''network''"] t r2 e
    by simp_all
  from c t r1 r2 0 1 2 show ?thesis unfolding s_def by (intro conjI)
qed

text \<open>
  C4 as stated fails.  Right after \<^verbatim>\<open>cancel\<close> the four collections are empty and the
  error callback has not been called.  Then the three abandoned invocations settle: the
  first item is added to the completed collection, the second to the queued collection,
  the third to the failed collection, and the error callback is called for the third.
\<close>

theorem quiescence_counterexample:
  "isCancelled (run errors_only abandoned_run)
   \<and> queue (run errors_only abandoned_run) = []
   \<and> active (run errors_only abandoned_run) = []
   \<and> completed (run errors_only abandoned_run) = []
   \<and> failed (run errors_only abandoned_run) = []
   \<and> ErrorCb 2 ''network'' \<notin> set (trace (run errors_only abandoned_run))
   \<and> isCancelled (run errors_only (abandoned_run @ settlements))
   \<and> completed (run errors_only (abandoned_run @ settlements)) = [0]
   \<and> queue (run errors_only (abandoned_run @ settlements)) = [1]
   \<and> failed (run errors_only (abandoned_run @ settlements)) = [2]
   \<and> ErrorCb 2 ''network'' \<in> set (trace (run errors_only (abandoned_run @ settlements)))"
proof -
  have a: "isCancelled (run errors_only abandoned_run)"
    "queue (run errors_only abandoned_run) = []"
    "active (run errors_only abandoned_run) = []"
    "completed (run errors_only abandoned_run) = []"
    "failed (run errors_only abandoned_run) = []"
    "ErrorCb 2 ''network'' \<notin> set (trace (run errors_only abandoned_run))"
    by (simp_all add: abandoned_state)
  have b: "isCancelled (run errors_only (abandoned_run @ settlements))"
    "completed (run errors_only (abandoned_run @ settlements)) = [0]"
    "queue (run errors_only (abandoned_run @ settlements)) = [1]"
    "failed (run errors_only (abandoned_run @ settlements)) = [2]"
    "ErrorCb 2 ''network'' \<in> set (trace (run errors_only (abandoned_run @ settlements)))"
    unfolding run_append abandoned_state
    by (simp_all add: settlements_def eval_defs)
  from a b show ?thesis by (intro conjI)
qed

section \<open>The order in which items are pulled\<close>

text \<open>
  Items enter the queue at its end in \<^verbatim>\<open>addToQueue\<close> and at its front in the
  \<^verbatim>\<open>catch\<close> block, and leave it at its front in the slot-filling loop.
\<close>

lemma fill_prefix: "\<exists>k. queue (fill s) = drop k (queue s) \<and> active (fill s) = active s @ take k (queue s)"
proof (induction s rule: fill.induct)
  case (1 s)
  show ?case
  proof (cases "int (length (active s)) < maxConcurrent s \<and> queue s \<noteq> []")
    case True
    let ?s' = "processItem_begin (hd (queue s)) (s\<lparr>queue := tl (queue s), active := active s @ [hd (queue s)]\<rparr>)"
    obtain k where k: "queue (fill ?s') = drop k (queue ?s')" "active (fill ?s') = active ?s' @ take k (queue ?s')"
      using "1.IH" True by blast
    have f: "fill s = fill ?s'"
      using True by (subst fill.simps) simp
    obtain x xs where q: "queue s = x # xs" using True by (cases "queue s") auto
    have "queue (fill s) = drop (Suc k) (queue s)" "active (fill s) = active s @ take (Suc k) (queue s)"
      using k by (simp_all add: f processItem_begin_fields q)
    then show ?thesis by blast
  next
    case False
    then have "fill s = s" by (subst fill.simps) auto
    then have "queue (fill s) = drop 0 (queue s) \<and> active (fill s) = active s @ take 0 (queue s)" by simp
    then show ?thesis by blast
  qed
qed

lemma fill_pulls_head:
  assumes "queue s = r # rest" and "int (length (active s)) < maxConcurrent s"
  shows "\<exists>more. active (fill s) = active s @ r # more"
proof -
  let ?s' = "processItem_begin r (s\<lparr>queue := rest, active := active s @ [r]\<rparr>)"
  have "fill s = fill ?s'"
    using assms by (subst fill.simps) simp
  moreover obtain k where "active (fill ?s') = active ?s' @ take k (queue ?s')"
    using fill_prefix [of ?s'] by blast
  ultimately have "active (fill s) = active s @ r # take k rest"
    by (simp add: processItem_begin_fields)
  then show ?thesis by blast
qed

lemma fifo_inv_order:
  assumes "fifo_inv k s"
  shows "fifo_order s"
proof -
  let ?n = "length (objs s)"
  obtain R where kn: "k \<le> ?n" and q: "queue s = R @ [k..<?n]"
    and R: "\<forall>r\<in>set R. r < k \<and> 0 < retries (objs s ! r)"
    and fresh: "\<forall>r. k \<le> r \<and> r < ?n \<longrightarrow> retries (objs s ! r) = 0"
    and left: "\<forall>r\<in>set (active s) \<union> set (completed s) \<union> set (failed s). r < k"
    using assms by (auto simp: fifo_inv_def)
  have r1: "filter (retried s) R = R"
    using R by (simp add: retried_def)
  have r2: "filter (\<lambda>r. \<not> retried s r) R = []"
    using R by (simp add: retried_def)
  have f1: "filter (retried s) [k..<?n] = []"
    using fresh by (simp add: retried_def)
  have f2: "filter (\<lambda>r. \<not> retried s r) [k..<?n] = [k..<?n]"
    using fresh by (simp add: retried_def)
  have ns: "never_started s = [k..<?n]"
    by (simp add: never_started_def q r2 f2)
  have fw: "first_waiting s = k"
    using kn by (simp add: first_waiting_def ns)
  have rt: "filter (retried s) (queue s) = R"
    by (simp add: q r1 f1)
  have 1: "queue s = filter (retried s) (queue s) @ never_started s"
    unfolding rt ns by (rule q)
  have 2: "never_started s = [first_waiting s..<?n]"
    unfolding fw by (rule ns)
  have "list_all (\<lambda>r. r < k) (R @ active s @ completed s @ failed s)"
    using R left by (auto simp: list_all_iff)
  then have 3: "list_all (\<lambda>r. r < first_waiting s)
      (filter (retried s) (queue s) @ active s @ completed s @ failed s)"
    unfolding rt fw .
  from 1 2 3 show ?thesis unfolding fifo_order_def by (intro conjI)
qed

lemma fifo_inv_fields:
  assumes "fifo_inv k s" and "queue s' = queue s" and "active s' = active s"
    and "completed s' = completed s" and "failed s' = failed s" and "objs s' = objs s"
    and "fst ` set (tasks s') \<subseteq> fst ` set (tasks s)"
  shows "fifo_inv k s'"
proof -
  have "\<forall>r\<in>fst ` set (tasks s) \<union> set (active s) \<union> set (completed s) \<union> set (failed s). r < k"
    using assms(1) unfolding fifo_inv_def by blast
  then have "\<forall>r\<in>fst ` set (tasks s') \<union> set (active s) \<union> set (completed s) \<union> set (failed s). r < k"
    using assms(7) by blast
  then show ?thesis
    using assms(1) unfolding fifo_inv_def assms(2-6) by blast
qed

lemma retries_modify:
  "(\<And>it. retries (f it) = retries it) \<Longrightarrow> retries (objs (modify q f s) ! r) = retries (objs s ! r)"
  by (cases "q < length (objs s)"; cases "r = q") (simp_all add: modify_def list_update_beyond)

lemma fifo_inv_addToQueue:
  assumes inv: "fifo_inv k s"
  shows "fifo_inv k (snd (addToQueue items s))"
proof -
  let ?s = "snd (addToQueue items s)"
  let ?n = "length (objs s)"
  obtain R where kn: "k \<le> ?n" and q: "queue s = R @ [k..<?n]"
    and R: "\<forall>r\<in>set R. r < k \<and> 0 < retries (objs s ! r)"
    and fresh: "\<forall>r. k \<le> r \<and> r < ?n \<longrightarrow> retries (objs s ! r) = 0"
    and nonneg: "\<forall>r<?n. 0 \<le> retries (objs s ! r)"
    and left: "\<forall>r\<in>fst ` set (tasks s) \<union> set (active s) \<union> set (completed s) \<union> set (failed s). r < k"
    using inv unfolding fifo_inv_def by blast
  have len: "length (objs ?s) = ?n + length items"
    by (simp add: addToQueue_fields length_downloadItems)
  have old: "objs ?s ! r = objs s ! r" if "r < ?n" for r
    using that by (simp add: addToQueue_fields nth_append)
  have new: "retries (objs ?s ! r) = 0" if "?n \<le> r" "r < ?n + length items" for r
  proof -
    have "objs ?s ! r = downloadItems items ! (r - ?n)"
      using that by (simp add: addToQueue_fields nth_append)
    moreover have "downloadItems items ! (r - ?n) \<in> set (downloadItems items)"
      using that by (simp add: length_downloadItems)
    ultimately show ?thesis using downloadItems_fresh by simp
  qed
  have "[k..<?n] @ [?n..<?n + length items] = [k..<?n + length items]"
    by (rule upt_add_eq_append [symmetric]) (rule kn)
  then have 1: "queue ?s = R @ [k..<length (objs ?s)]"
    by (simp add: addToQueue_fields q length_downloadItems)
  have 2: "\<forall>r\<in>set R. r < k \<and> 0 < retries (objs ?s ! r)"
    using R kn old by auto
  have 3: "\<forall>r. k \<le> r \<and> r < length (objs ?s) \<longrightarrow> retries (objs ?s ! r) = 0"
  proof (intro allI impI)
    fix r assume r: "k \<le> r \<and> r < length (objs ?s)"
    show "retries (objs ?s ! r) = 0"
    proof (cases "r < ?n")
      case True
      then show ?thesis using fresh r old by simp
    next
      case False
      then show ?thesis using new [of r] r len by simp
    qed
  qed
  have 4: "\<forall>r<length (objs ?s). 0 \<le> retries (objs ?s ! r)"
  proof (intro allI impI)
    fix r assume r: "r < length (objs ?s)"
    show "0 \<le> retries (objs ?s ! r)"
    proof (cases "r < ?n")
      case True
      then show ?thesis using nonneg old by simp
    next
      case False
      then show ?thesis using new [of r] r len by simp
    qed
  qed
  have 5: "\<forall>r\<in>fst ` set (tasks ?s) \<union> set (active ?s) \<union> set (completed ?s) \<union> set (failed ?s). r < k"
    using left by (simp add: addToQueue_fields)
  have 0: "k \<le> length (objs ?s)" using kn len by simp
  from 0 1 2 3 4 5 show ?thesis unfolding fifo_inv_def by blast
qed

lemma fifo_inv_iteration:
  assumes inv: "fifo_inv k s" and ne: "queue s \<noteq> []"
  shows "\<exists>k'. fifo_inv k' (processItem_begin (hd (queue s))
           (s\<lparr>queue := tl (queue s), active := active s @ [hd (queue s)]\<rparr>))"
proof -
  define h where "h = hd (queue s)"
  define s' where "s' = processItem_begin h (s\<lparr>queue := tl (queue s), active := active s @ [h]\<rparr>)"
  let ?n = "length (objs s)"
  obtain R where kn: "k \<le> ?n" and q: "queue s = R @ [k..<?n]"
    and R: "\<forall>r\<in>set R. r < k \<and> 0 < retries (objs s ! r)"
    and fresh: "\<forall>r. k \<le> r \<and> r < ?n \<longrightarrow> retries (objs s ! r) = 0"
    and nonneg: "\<forall>r<?n. 0 \<le> retries (objs s ! r)"
    and left: "\<forall>r\<in>fst ` set (tasks s) \<union> set (active s) \<union> set (completed s) \<union> set (failed s). r < k"
    using inv unfolding fifo_inv_def by blast
  have len: "length (objs s') = ?n"
    by (simp add: s'_def processItem_begin_fields length_objs_modify)
  have ret: "retries (objs s' ! r) = retries (objs s ! r)" for r
    using retries_modify [of "\<lambda>it. it\<lparr>status := Downloading\<rparr>" h
        "s\<lparr>queue := tl (queue s), active := active s @ [h]\<rparr>" r]
    by (simp add: s'_def processItem_begin_fields)
  have flds: "queue s' = tl (queue s)" "active s' = active s @ [h]" "completed s' = completed s"
    "failed s' = failed s" "tasks s' = tasks s @ [(h, Starting)]"
    by (simp_all add: s'_def processItem_begin_fields)
  have "\<exists>k'. fifo_inv k' s'"
  proof (cases R)
    case Nil
    then have qk: "queue s = [k..<?n]" using q by simp
    then have lt: "k < ?n" using ne by simp
    then have h: "h = k" and t: "tl (queue s) = [Suc k..<?n]"
      using qk by (simp_all add: h_def upt_conv_Cons)
    have 1: "queue s' = [] @ [Suc k..<length (objs s')] \<and> (\<forall>r\<in>set []. r < Suc k \<and> 0 < retries (objs s' ! r))"
      by (simp add: flds t len)
    have 3: "\<forall>r. Suc k \<le> r \<and> r < length (objs s') \<longrightarrow> retries (objs s' ! r) = 0"
      using fresh by (simp add: len ret)
    have 4: "\<forall>r<length (objs s'). 0 \<le> retries (objs s' ! r)"
      using nonneg by (simp add: len ret)
    have left': "\<forall>r\<in>fst ` set (tasks s) \<union> set (active s) \<union> set (completed s) \<union> set (failed s). r < Suc k"
      using left less_SucI by blast
    have "fst ` set (tasks s') \<subseteq> insert k (fst ` set (tasks s))" "set (active s') \<subseteq> insert k (set (active s))"
      "set (completed s') \<subseteq> set (completed s)" "set (failed s') \<subseteq> set (failed s)"
      by (auto simp: flds h)
    then have 5: "\<forall>r\<in>fst ` set (tasks s') \<union> set (active s') \<union> set (completed s') \<union> set (failed s'). r < Suc k"
      using left' by blast
    have 0: "Suc k \<le> length (objs s')" using lt len by simp
    from 0 1 3 4 5 have "fifo_inv (Suc k) s'" unfolding fifo_inv_def by blast
    then show ?thesis by blast
  next
    case (Cons x xs)
    then have h: "h = x" and t: "tl (queue s) = xs @ [k..<?n]"
      using q by (simp_all add: h_def)
    have x: "x < k" using R Cons by simp
    have 1: "queue s' = xs @ [k..<length (objs s')] \<and> (\<forall>r\<in>set xs. r < k \<and> 0 < retries (objs s' ! r))"
      using R Cons by (simp add: flds t len ret)
    have 3: "\<forall>r. k \<le> r \<and> r < length (objs s') \<longrightarrow> retries (objs s' ! r) = 0"
      using fresh by (simp add: len ret)
    have 4: "\<forall>r<length (objs s'). 0 \<le> retries (objs s' ! r)"
      using nonneg by (simp add: len ret)
    have "fst ` set (tasks s') \<subseteq> insert x (fst ` set (tasks s))" "set (active s') \<subseteq> insert x (set (active s))"
      "set (completed s') \<subseteq> set (completed s)" "set (failed s') \<subseteq> set (failed s)"
      by (auto simp: flds h)
    then have 5: "\<forall>r\<in>fst ` set (tasks s') \<union> set (active s') \<union> set (completed s') \<union> set (failed s'). r < k"
      using left x by blast
    have 0: "k \<le> length (objs s')" using kn len by simp
    from 0 1 3 4 5 have "fifo_inv k s'" unfolding fifo_inv_def by blast
    then show ?thesis by blast
  qed
  then show ?thesis by (simp add: s'_def h_def)
qed

lemma fst_tasks_settle: "fst ` set (remove1 (r, st) ts @ [(r, st')]) \<subseteq> insert r (fst ` set ts)"
  using set_remove1_subset [of "(r, st)" ts] by auto

lemma fifo_inv_on_success:
  assumes inv: "fifo_inv k s" and t: "(r, st) \<in> set (tasks s)"
  shows "fifo_inv k (on_success r st s)"
proof -
  let ?s = "on_success r st s"
  let ?n = "length (objs s)"
  obtain R where kn: "k \<le> ?n" and q: "queue s = R @ [k..<?n]"
    and R: "\<forall>r\<in>set R. r < k \<and> 0 < retries (objs s ! r)"
    and fresh: "\<forall>r. k \<le> r \<and> r < ?n \<longrightarrow> retries (objs s ! r) = 0"
    and nonneg: "\<forall>r<?n. 0 \<le> retries (objs s ! r)"
    and left: "\<forall>r\<in>fst ` set (tasks s) \<union> set (active s) \<union> set (completed s) \<union> set (failed s). r < k"
    using inv unfolding fifo_inv_def by blast
  have rk: "r < k" using left t by force
  have len: "length (objs ?s) = ?n"
    by (simp add: on_success_fields length_objs_modify)
  have ret: "retries (objs ?s ! q) = retries (objs s ! q)" for q
    by (simp add: on_success_fields retries_modify)
  have 1: "queue ?s = R @ [k..<length (objs ?s)] \<and> (\<forall>r\<in>set R. r < k \<and> 0 < retries (objs ?s ! r))"
    using R by (simp add: on_success_fields(1) q len ret)
  have 3: "\<forall>r. k \<le> r \<and> r < length (objs ?s) \<longrightarrow> retries (objs ?s ! r) = 0"
    using fresh by (simp add: len ret)
  have 4: "\<forall>r<length (objs ?s). 0 \<le> retries (objs ?s ! r)"
    using nonneg by (simp add: len ret)
  have a: "set (active ?s) \<subseteq> set (active s)"
    by (simp add: on_success_fields(2) remove_by_id_subset)
  have ts: "fst ` set (tasks ?s) \<subseteq> insert r (fst ` set (tasks s))"
    by (simp only: on_success_fields(5) fst_tasks_settle)
  have c: "set (completed ?s) \<subseteq> insert r (set (completed s))" "set (failed ?s) \<subseteq> set (failed s)"
    by (auto simp: on_success_fields(3,4))
  have 5: "\<forall>r\<in>fst ` set (tasks ?s) \<union> set (active ?s) \<union> set (completed ?s) \<union> set (failed ?s). r < k"
    using left rk a ts c by blast
  have 0: "k \<le> length (objs ?s)" using kn len by simp
  from 0 1 3 4 5 show ?thesis unfolding fifo_inv_def by blast
qed

lemma fifo_inv_on_failure:
  assumes inv: "fifo_inv k s" and t: "(r, st) \<in> set (tasks s)"
  shows "fifo_inv k (on_failure r st msg s)"
proof -
  let ?s = "on_failure r st msg s"
  let ?n = "length (objs s)"
  obtain R where kn: "k \<le> ?n" and q: "queue s = R @ [k..<?n]"
    and R: "\<forall>r\<in>set R. r < k \<and> 0 < retries (objs s ! r)"
    and fresh: "\<forall>r. k \<le> r \<and> r < ?n \<longrightarrow> retries (objs s ! r) = 0"
    and nonneg: "\<forall>r<?n. 0 \<le> retries (objs s ! r)"
    and left: "\<forall>r\<in>fst ` set (tasks s) \<union> set (active s) \<union> set (completed s) \<union> set (failed s). r < k"
    using inv unfolding fifo_inv_def by blast
  have rk: "r < k" using left t by force
  then have rn: "r < ?n" using kn by simp
  have len: "length (objs ?s) = ?n"
    by (simp add: on_failure_fields length_objs_modify)
  have a: "set (active ?s) \<subseteq> set (active s)"
    by (simp add: on_failure_fields(2) remove_by_id_subset)
  have ts: "fst ` set (tasks ?s) \<subseteq> insert r (fst ` set (tasks s))"
    by (simp only: on_failure_fields(5) fst_tasks_settle)
  have 0: "k \<le> length (objs ?s)" using kn len by simp
  have c: "set (completed ?s) \<subseteq> set (completed s)" "set (failed ?s) \<subseteq> insert r (set (failed s))"
    by (auto simp: on_failure_fields(3,4))
  have 5: "\<forall>q\<in>fst ` set (tasks ?s) \<union> set (active ?s) \<union> set (completed ?s) \<union> set (failed ?s). q < k"
    using left rk a ts c by blast
  show ?thesis
  proof (cases "retries (objs s ! r) < retryAttempts s")
    case True
    have ret: "retries (objs ?s ! q) = (if q = r then retries (objs s ! r) + 1 else retries (objs s ! q))" for q
      using True rn by (simp add: on_failure_fields(6) modify_def)
    have "queue ?s = (r # R) @ [k..<length (objs ?s)]"
      using True by (simp add: on_failure_fields(1) q len)
    moreover have "\<forall>q\<in>set (r # R). q < k \<and> 0 < retries (objs ?s ! q)"
      using R rk rn nonneg by (auto simp: ret)
    ultimately have 1: "\<exists>R'. queue ?s = R' @ [k..<length (objs ?s)] \<and> (\<forall>q\<in>set R'. q < k \<and> 0 < retries (objs ?s ! q))"
      by blast
    have 3: "\<forall>q. k \<le> q \<and> q < length (objs ?s) \<longrightarrow> retries (objs ?s ! q) = 0"
      using fresh rk by (auto simp: len ret)
    have 4: "\<forall>q<length (objs ?s). 0 \<le> retries (objs ?s ! q)"
      using nonneg rn by (auto simp: len ret)
    from 0 1 3 4 5 show ?thesis unfolding fifo_inv_def by blast
  next
    case False
    have ret: "retries (objs ?s ! q) = retries (objs s ! q)" for q
      using False by (simp add: on_failure_fields(6) retries_modify)
    have 1: "queue ?s = R @ [k..<length (objs ?s)] \<and> (\<forall>q\<in>set R. q < k \<and> 0 < retries (objs ?s ! q))"
      using R False by (simp add: on_failure_fields(1) q len ret)
    have 3: "\<forall>q. k \<le> q \<and> q < length (objs ?s) \<longrightarrow> retries (objs ?s ! q) = 0"
      using fresh by (simp add: len ret)
    have 4: "\<forall>q<length (objs ?s). 0 \<le> retries (objs ?s ! q)"
      using nonneg by (simp add: len ret)
    from 0 1 3 4 5 show ?thesis unfolding fifo_inv_def by blast
  qed
qed

lemma fifo_inv_reset:
  assumes inv: "fifo_inv k s" and "queue s' = []" and "set (active s') \<subseteq> set (active s)"
    and "set (completed s') \<subseteq> set (completed s)" and "set (failed s') \<subseteq> set (failed s)"
    and "tasks s' = tasks s" and "objs s' = objs s"
  shows "fifo_inv (length (objs s)) s'"
proof -
  let ?n = "length (objs s)"
  have kn: "k \<le> ?n"
    and nonneg: "\<forall>r<?n. 0 \<le> retries (objs s ! r)"
    and left: "\<forall>r\<in>fst ` set (tasks s) \<union> set (active s) \<union> set (completed s) \<union> set (failed s). r < k"
    using inv unfolding fifo_inv_def by blast+
  have 1: "queue s' = [] @ [?n..<length (objs s')] \<and> (\<forall>r\<in>set []. r < ?n \<and> 0 < retries (objs s' ! r))"
    using assms(2,7) by simp
  have 3: "\<forall>r. ?n \<le> r \<and> r < length (objs s') \<longrightarrow> retries (objs s' ! r) = 0"
    using assms(7) by simp
  have 4: "\<forall>r<length (objs s'). 0 \<le> retries (objs s' ! r)"
    using nonneg assms(7) by simp
  have "\<forall>r\<in>fst ` set (tasks s') \<union> set (active s') \<union> set (completed s') \<union> set (failed s'). r < k"
    using left assms(3-6) by auto
  then have 5: "\<forall>r\<in>fst ` set (tasks s') \<union> set (active s') \<union> set (completed s') \<union> set (failed s'). r < ?n"
    using kn less_le_trans by blast
  have 0: "?n \<le> length (objs s')" using assms(7) by simp
  from 0 1 3 4 5 show ?thesis unfolding fifo_inv_def by blast
qed

lemma fifo_inv_cancel: "fifo_inv k s \<Longrightarrow> fifo_inv (length (objs s)) (cancel s)"
  by (rule fifo_inv_reset) (simp_all add: cancel_fields)

lemma fifo_inv_init: "fifo_inv k s \<Longrightarrow> fifo_inv (length (objs s)) (init opts s)"
  by (rule fifo_inv_reset) (simp_all add: init_def)

lemma fifo_inv_fold: "\<exists>k. fifo_inv k s \<Longrightarrow> \<exists>k. fifo_inv k (fold step evs s)"
proof (rule fold_step_preserves [where P = "\<lambda>s. \<exists>k. fifo_inv k s" and C = True and A = True])
  fix s items assume "\<exists>k. fifo_inv k s"
  then show "\<exists>k. fifo_inv k (snd (addToQueue items s))"
    using fifo_inv_addToQueue by blast
next
  fix s assume "\<exists>k. fifo_inv k s" and "queue s \<noteq> []"
  then show "\<exists>k. fifo_inv k (processItem_begin (hd (queue s))
      (s\<lparr>queue := tl (queue s), active := active s @ [hd (queue s)]\<rparr>))"
    using fifo_inv_iteration by blast
next
  fix s :: manager and b assume "\<exists>k. fifo_inv k s"
  then obtain k where "fifo_inv k s" by blast
  then have "fifo_inv k (s\<lparr>isPaused := b\<rparr>)" by (rule fifo_inv_fields) simp_all
  then show "\<exists>k. fifo_inv k (s\<lparr>isPaused := b\<rparr>)" by blast
next
  fix s :: manager assume "\<exists>k. fifo_inv k s"
  then obtain k where "fifo_inv k s" by blast
  then have "fifo_inv k (s\<lparr>isCancelled := False, isPaused := False\<rparr>)" by (rule fifo_inv_fields) simp_all
  then show "\<exists>k. fifo_inv k (s\<lparr>isCancelled := False, isPaused := False\<rparr>)" by blast
next
  fix s :: manager assume "\<exists>k. fifo_inv k s"
  then obtain k where "fifo_inv k s" by blast
  then have "fifo_inv k (emitComplete s)" by (rule fifo_inv_fields) (simp_all add: emitComplete_fields)
  then show "\<exists>k. fifo_inv k (emitComplete s)" by blast
next
  fix s :: manager and ds assume "\<exists>k. fifo_inv k s"
  then obtain k where "fifo_inv k s" by blast
  then have "fifo_inv k (s\<lparr>drivers := ds\<rparr>)" by (rule fifo_inv_fields) simp_all
  then show "\<exists>k. fifo_inv k (s\<lparr>drivers := ds\<rparr>)" by blast
next
  fix s :: manager assume "\<exists>k. fifo_inv k s"
  then show "\<exists>k. fifo_inv k (cancel s)"
    using fifo_inv_cancel by blast
next
  fix s r h assume "\<exists>k. fifo_inv k s" and "(r, Waiting h) \<in> set (tasks s)"
  then show "\<exists>k. fifo_inv k (on_success r (Waiting h) s)"
    using fifo_inv_on_success by blast
next
  fix s r st msg assume "\<exists>k. fifo_inv k s" and "(r, st) \<in> set (tasks s)"
  then show "\<exists>k. fifo_inv k (on_failure r st msg s)"
    using fifo_inv_on_failure by blast
next
  fix s r h assume "\<exists>k. fifo_inv k s" and t: "(r, Starting) \<in> set (tasks s)"
  then obtain k where "fifo_inv k s" by blast
  then have "fifo_inv k (s\<lparr>tasks := remove1 (r, Starting) (tasks s) @ [(r, Waiting h)]\<rparr>)"
  proof (rule fifo_inv_fields)
    show "fst ` set (tasks (s\<lparr>tasks := remove1 (r, Starting) (tasks s) @ [(r, Waiting h)]\<rparr>))
          \<subseteq> fst ` set (tasks s)"
      using fst_tasks_settle [of r Starting "tasks s" "Waiting h"] t by force
  qed simp_all
  then show "\<exists>k. fifo_inv k (s\<lparr>tasks := remove1 (r, Starting) (tasks s) @ [(r, Waiting h)]\<rparr>)" by blast
next
  fix s r assume "\<exists>k. fifo_inv k s" and t: "(r, Delaying) \<in> set (tasks s)"
  then obtain k where "fifo_inv k s" by blast
  then have "fifo_inv k (s\<lparr>tasks := remove1 (r, Delaying) (tasks s)\<rparr>)"
  proof (rule fifo_inv_fields)
    show "fst ` set (tasks (s\<lparr>tasks := remove1 (r, Delaying) (tasks s)\<rparr>)) \<subseteq> fst ` set (tasks s)"
      using set_remove1_subset [of "(r, Delaying)" "tasks s"] by auto
  qed simp_all
  then show "\<exists>k. fifo_inv k (s\<lparr>tasks := remove1 (r, Delaying) (tasks s)\<rparr>)" by blast
qed simp_all

lemma fifo_inv_run_from: "\<exists>k. fifo_inv k m \<Longrightarrow> \<exists>k. fifo_inv k (run_from m opts evs)"
  unfolding run_from_def using fifo_inv_init by (intro fifo_inv_fold) blast

lemma fifo_inv_sessions:
  "\<exists>k. fifo_inv k m \<Longrightarrow> \<exists>k. fifo_inv k (fold (\<lambda>(opts, evs) m. run_from m opts evs) hs m)"
proof (induction hs arbitrary: m)
  case Nil
  then show ?case by simp
next
  case (Cons h hs)
  obtain opts evs where h: "h = (opts, evs)" by (cases h)
  have "\<exists>k. fifo_inv k (run_from m opts evs)"
    using Cons.prems by (rule fifo_inv_run_from)
  then show ?case using Cons.IH h by simp
qed

lemma fifo_order_session: "fifo_order (session hs)"
proof -
  have "fifo_inv 0 new_manager"
    by (simp add: fifo_inv_def new_manager_def)
  then have "\<exists>k. fifo_inv k new_manager" by blast
  then have "\<exists>k. fifo_inv k (session hs)"
    unfolding session_def by (rule fifo_inv_sessions)
  then show ?thesis using fifo_inv_order by blast
qed

lemma session_single: "session [(opts, evs)] = run opts evs"
  by (simp add: session_def run_from_def run_def)

text \<open>Which events move items, and how.\<close>

lemma after_loop_same:
  "queue (fst (after_loop s)) = queue s" "active (fst (after_loop s)) = active s"
  by (simp_all add: after_loop_def emitComplete_fields)

lemma pause_check_prefix:
  "\<exists>j. queue (fst (pause_check s)) = drop j (queue s) \<and> active (fst (pause_check s)) = active s @ take j (queue s)"
proof (cases "isPaused s \<or> isCancelled s")
  case False
  then have "fst (pause_check s) = fill s" by (simp add: pause_check_def)
  then show ?thesis using fill_prefix [of s] by simp
next
  case True
  then have "queue (fst (pause_check s)) = drop 0 (queue s) \<and> active (fst (pause_check s)) = active s @ take 0 (queue s)"
    by (auto simp: pause_check_def after_loop_same)
  then show ?thesis by blast
qed

lemma loop_top_prefix:
  "\<exists>j. queue (fst (loop_top s)) = drop j (queue s) \<and> active (fst (loop_top s)) = active s @ take j (queue s)"
proof (cases "\<not> isCancelled s \<and> (queue s \<noteq> [] \<or> active s \<noteq> [])")
  case True
  then have "fst (loop_top s) = fst (pause_check s)" by (simp add: loop_top_def)
  then show ?thesis using pause_check_prefix [of s] by simp
next
  case False
  then have "queue (fst (loop_top s)) = drop 0 (queue s) \<and> active (fst (loop_top s)) = active s @ take 0 (queue s)"
    by (auto simp: loop_top_def after_loop_same)
  then show ?thesis by blast
qed

lemma start_prefix:
  "\<exists>j. queue (start s) = drop j (queue s) \<and> active (start s) = active s @ take j (queue s)"
proof -
  have qa: "queue (start s) = queue (fst (start_body s))" "active (start s) = active (fst (start_body s))"
    by (cases "start_body s"; simp add: start_def split: option.splits)+
  show ?thesis
  proof (cases "queue s = [] \<and> active s = []")
    case True
    then have "queue (start s) = drop 0 (queue s) \<and> active (start s) = active s @ take 0 (queue s)"
      by (simp add: qa start_body_def emitComplete_fields)
    then show ?thesis by blast
  next
    case False
    then have "fst (start_body s) = fst (loop_top (s\<lparr>isCancelled := False, isPaused := False\<rparr>))"
      by (auto simp: start_body_def)
    then show ?thesis
      using loop_top_prefix [of "s\<lparr>isCancelled := False, isPaused := False\<rparr>"] by (simp add: qa)
  qed
qed

lemma driver_wake_prefix:
  "\<exists>j. queue (driver_wake d s) = drop j (queue s) \<and> active (driver_wake d s) = active s @ take j (queue s)"
proof (cases "d < length (drivers s)")
  case True
  have qa: "queue (driver_wake d s) = queue (fst (continue (drivers s ! d) s))"
    "active (driver_wake d s) = active (fst (continue (drivers s ! d) s))"
    using True by (cases "continue (drivers s ! d) s"; simp add: driver_wake_def split: option.splits)+
  have "\<exists>j. queue (fst (continue e s)) = drop j (queue s) \<and> active (fst (continue e s)) = active s @ take j (queue s)" for e
  proof (cases e)
    case PauseWait
    then show ?thesis using pause_check_prefix [of s] by (simp add: continue_def)
  next
    case Poll
    then show ?thesis using loop_top_prefix [of s] by (simp add: continue_def)
  next
    case Drain
    then have "queue (fst (continue e s)) = drop 0 (queue s) \<and> active (fst (continue e s)) = active s @ take 0 (queue s)"
      by (simp add: continue_def after_loop_same)
    then show ?thesis by blast
  qed
  then show ?thesis by (simp add: qa)
next
  case False
  then have "queue (driver_wake d s) = drop 0 (queue s) \<and> active (driver_wake d s) = active s @ take 0 (queue s)"
    by (simp add: driver_wake_def)
  then show ?thesis by blast
qed

lemma poll_pulls_head:
  assumes "d < length (drivers s)" and "drivers s ! d = Poll" and "\<not> isCancelled s" and "\<not> isPaused s"
    and "queue s = r # rest" and "int (length (active s)) < maxConcurrent s"
  shows "\<exists>more. active (driver_wake d s) = active s @ r # more"
proof -
  have "continue (drivers s ! d) s = (fill s, Some Poll)"
    using assms by (simp add: continue_def loop_top_def pause_check_def)
  then have "active (driver_wake d s) = active (fill s)"
    using assms(1) by (simp add: driver_wake_def)
  then show ?thesis using fill_pulls_head [OF assms(5,6)] by simp
qed

lemma queue_resume_started:
  "queue (resume_started r res s)
   = (if isl (downloadFile res) \<and> retries (objs s ! r) < retryAttempts s then r # queue s else queue s)"
  by (cases res) (auto simp: resume_started_def downloadFile_def on_failure_fields split: option.splits)

lemma queue_resume_polled:
  "queue (resume_polled r h res s)
   = (if (res = NotFound \<or> (\<exists>e. res = Found Interrupted e)) \<and> retries (objs s ! r) < retryAttempts s
      then r # queue s else queue s)"
  by (auto simp: resume_polled_def on_failure_fields on_success_fields split: search_result.splits dl_state.splits)

lemma active_resume_started: "set (active (resume_started r res s)) \<subseteq> set (active s)"
  using remove_by_id_subset [of "objs s" "item_id (objs s ! r)" "active s"]
  by (auto simp: resume_started_def on_failure_fields split: sum.splits)

lemma active_resume_polled: "set (active (resume_polled r h res s)) \<subseteq> set (active s)"
  using remove_by_id_subset [of "objs s" "item_id (objs s ! r)" "active s"]
  by (auto simp: resume_polled_def on_success_fields on_failure_fields
      split: search_result.splits dl_state.splits)

lemma downloads_append: "downloads (xs @ ys) = downloads xs @ downloads ys"
  by (induction xs rule: downloads.induct) simp_all


lemma step_simps:
  "step (AddToQueue items) s = snd (addToQueue items s)"
  "step Start s = start s"
  "step Pause s = pause s"
  "step Resume s = resume s"
  "step Cancel s = cancel s"
  "step (DriverWake d) s = driver_wake d s"
  "step (DownloadStarted r res) s = (if (r, Starting) \<in> set (tasks s) then resume_started r res s else s)"
  "step (DownloadPolled r h pres) s = (if (r, Waiting h) \<in> set (tasks s) then resume_polled r h pres s else s)"
  "step (DelayElapsed r) s = (if (r, Delaying) \<in> set (tasks s) then s\<lparr>tasks := remove1 (r, Delaying) (tasks s)\<rparr> else s)"
  by (simp_all add: step_def)

text \<open>
  C5.  In every state of every session the queue is in the order first in, first out,
  with priority for retries: the retried items are in front, the items never started
  are behind them in the order of enqueueing, and whatever has left the queue was
  enqueued before every item never started.  Every event treats the queue accordingly:
  \<^verbatim>\<open>addToQueue\<close> appends the new items at the end in input order; \<^verbatim>\<open>start\<close> and a
  wake-up of its loop move a front part of the queue, in its order, to the end of the
  active collection, and nothing else; the loop, polling with a free slot, does move the
  first item of the queue; a download that fails with retries remaining puts its item at
  the front of the queue; every other settlement, \<^verbatim>\<open>pause\<close>, \<^verbatim>\<open>resume\<close> and the end
  of a delay leave the queue as it is, and none of them adds to the active collection;
  \<^verbatim>\<open>cancel\<close> empties both.  In the example three items A, B and C are enqueued with a
  single slot, A is started, fails and is put back in front of B and C, and the next
  item pulled is A; when A and then B have completed, the downloads were started in the
  order A, A, B, C.
\<close>

theorem fifo_retry_priority:
  "fifo_order (session hs)
   \<and> queue (step (AddToQueue items) s) = queue s @ [length (objs s) ..< length (objs s) + length items]
   \<and> active (step (AddToQueue items) s) = active s
   \<and> (\<exists>j. queue (step Start s) = drop j (queue s) \<and> active (step Start s) = active s @ take j (queue s))
   \<and> (\<exists>j. queue (step (DriverWake d) s) = drop j (queue s)
            \<and> active (step (DriverWake d) s) = active s @ take j (queue s))
   \<and> (d < length (drivers s) \<and> drivers s ! d = Poll \<and> \<not> isCancelled s \<and> \<not> isPaused s
        \<and> queue s = r # rest \<and> int (length (active s)) < maxConcurrent s
       \<longrightarrow> (\<exists>more. active (step (DriverWake d) s) = active s @ r # more))
   \<and> queue (step (DownloadStarted r res) s)
       = (if (r, Starting) \<in> set (tasks s) \<and> isl (downloadFile res) \<and> retries (objs s ! r) < retryAttempts s
          then r # queue s else queue s)
   \<and> queue (step (DownloadPolled r h pres) s)
       = (if (r, Waiting h) \<in> set (tasks s) \<and> (pres = NotFound \<or> (\<exists>e. pres = Found Interrupted e))
             \<and> retries (objs s ! r) < retryAttempts s
          then r # queue s else queue s)
   \<and> set (active (step (DownloadStarted r res) s)) \<subseteq> set (active s)
   \<and> set (active (step (DownloadPolled r h pres) s)) \<subseteq> set (active s)
   \<and> queue (step Pause s) = queue s \<and> active (step Pause s) = active s
   \<and> queue (step Resume s) = queue s \<and> active (step Resume s) = active s
   \<and> queue (step (DelayElapsed r) s) = queue s \<and> active (step (DelayElapsed r) s) = active s
   \<and> queue (step Cancel s) = [] \<and> active (step Cancel s) = []
   \<and> queue (run single_slot (take 2 fifo_run)) = [1, 2]
   \<and> active (run single_slot (take 2 fifo_run)) = [0]
   \<and> queue (run single_slot (take 3 fifo_run)) = [0, 1, 2]
   \<and> active (run single_slot (take 3 fifo_run)) = []
   \<and> queue (run single_slot fifo_run) = [1, 2]
   \<and> active (run single_slot fifo_run) = [0]
   \<and> completed (run single_slot (fifo_run @ fifo_rest)) = [0, 1]
   \<and> active (run single_slot (fifo_run @ fifo_rest)) = [2]
   \<and> downloads (trace (run single_slot (fifo_run @ fifo_rest)))
       = [''https://cdn.example/a.jpg'', ''https://cdn.example/a.jpg'',
          ''https://cdn.example/b.jpg'', ''https://cdn.example/c.jpg'']"
proof -
  have 1: "queue (step (AddToQueue items) s) = queue s @ [length (objs s) ..< length (objs s) + length items]"
    "active (step (AddToQueue items) s) = active s"
    by (simp_all add: step_simps addToQueue_fields)
  have 2: "\<exists>j. queue (step Start s) = drop j (queue s) \<and> active (step Start s) = active s @ take j (queue s)"
    unfolding step_simps by (rule start_prefix)
  have 3: "\<exists>j. queue (step (DriverWake d) s) = drop j (queue s)
            \<and> active (step (DriverWake d) s) = active s @ take j (queue s)"
    unfolding step_simps by (rule driver_wake_prefix)
  have 4: "d < length (drivers s) \<and> drivers s ! d = Poll \<and> \<not> isCancelled s \<and> \<not> isPaused s
        \<and> queue s = r # rest \<and> int (length (active s)) < maxConcurrent s
       \<longrightarrow> (\<exists>more. active (step (DriverWake d) s) = active s @ r # more)"
    unfolding step_simps using poll_pulls_head [of d s r rest] by blast
  have 5: "queue (step (DownloadStarted r res) s)
       = (if (r, Starting) \<in> set (tasks s) \<and> isl (downloadFile res) \<and> retries (objs s ! r) < retryAttempts s
          then r # queue s else queue s)"
    by (simp add: step_simps queue_resume_started)
  have 6: "queue (step (DownloadPolled r h pres) s)
       = (if (r, Waiting h) \<in> set (tasks s) \<and> (pres = NotFound \<or> (\<exists>e. pres = Found Interrupted e))
             \<and> retries (objs s ! r) < retryAttempts s
          then r # queue s else queue s)"
    by (simp add: step_simps queue_resume_polled)
  have 7: "set (active (step (DownloadStarted r res) s)) \<subseteq> set (active s)"
    "set (active (step (DownloadPolled r h pres) s)) \<subseteq> set (active s)"
    by (simp_all add: step_simps active_resume_started active_resume_polled)
  have 8: "queue (step Pause s) = queue s" "active (step Pause s) = active s"
    "queue (step Resume s) = queue s" "active (step Resume s) = active s"
    "queue (step (DelayElapsed r) s) = queue s" "active (step (DelayElapsed r) s) = active s"
    "queue (step Cancel s) = []" "active (step Cancel s) = []"
    by (simp_all add: step_simps pause_def resume_def cancel_fields)
  have 9: "queue (run single_slot (take 2 fifo_run)) = [1, 2]"
    "active (run single_slot (take 2 fifo_run)) = [0]"
    "queue (run single_slot (take 3 fifo_run)) = [0, 1, 2]"
    "active (run single_slot (take 3 fifo_run)) = []"
    "queue (run single_slot fifo_run) = [1, 2]"
    "active (run single_slot fifo_run) = [0]"
    by (simp_all add: fifo_run_def single_slot_def eval_defs)
  have 10: "completed (run single_slot (fifo_run @ fifo_rest)) = [0, 1]"
    "active (run single_slot (fifo_run @ fifo_rest)) = [2]"
    "downloads (trace (run single_slot (fifo_run @ fifo_rest)))
       = [''https://cdn.example/a.jpg'', ''https://cdn.example/a.jpg'',
          ''https://cdn.example/b.jpg'', ''https://cdn.example/c.jpg'']"
    by (simp_all add: fifo_run_def fifo_rest_def single_slot_def eval_defs)
  from fifo_order_session [of hs] 1 2 3 4 5 6 7 8 9 10 show ?thesis by (intro conjI)
qed

text \<open>
  The theorem in the example, in the state in which A has failed and is back in the
  queue: A is the retried item in front, B and C have never been started, and the loop,
  polling with the slot free, pulls A.
\<close>

theorem fifo_retry_priority_witness:
  "fifo_order (run single_slot (take 3 fifo_run))
   \<and> filter (retried (run single_slot (take 3 fifo_run))) (queue (run single_slot (take 3 fifo_run))) = [0]
   \<and> never_started (run single_slot (take 3 fifo_run)) = [1, 2]
   \<and> first_waiting (run single_slot (take 3 fifo_run)) = 1
   \<and> 0 < length (drivers (run single_slot (take 3 fifo_run)))
   \<and> drivers (run single_slot (take 3 fifo_run)) ! 0 = Poll
   \<and> \<not> isCancelled (run single_slot (take 3 fifo_run))
   \<and> \<not> isPaused (run single_slot (take 3 fifo_run))
   \<and> queue (run single_slot (take 3 fifo_run)) = [0, 1, 2]
   \<and> int (length (active (run single_slot (take 3 fifo_run)))) < maxConcurrent (run single_slot (take 3 fifo_run))
   \<and> hd (active (step (DriverWake 0) (run single_slot (take 3 fifo_run)))) = 0"
proof -
  define s where "s = run single_slot (take 3 fifo_run)"
  have a: "queue s = [0, 1, 2]" "active s = []" "maxConcurrent s = 1" "drivers s = [Poll]"
    "\<not> isCancelled s" "\<not> isPaused s"
    "retries (objs s ! 0) = 1" "retries (objs s ! 1) = 0" "retries (objs s ! 2) = 0" "length (objs s) = 3"
    by (simp_all add: s_def fifo_run_def single_slot_def eval_defs)
  have b: "filter (retried s) (queue s) = [0]" "never_started s = [1, 2]" "first_waiting s = 1"
    using a by (simp_all add: never_started_def first_waiting_def retried_def)
  have t: "fifo_order (session [(single_slot, take 3 fifo_run)])
      \<and> (\<exists>more. active (step (DriverWake 0) s) = active s @ 0 # more)"
    using fifo_retry_priority [where hs = "[(single_slot, take 3 fifo_run)]" and s = s and d = 0
        and r = 0 and rest = "[1, 2]"] a
    by simp
  then have "fifo_order s" "hd (active (step (DriverWake 0) s)) = 0"
    using a by (auto simp: s_def session_single)
  then show ?thesis using a b unfolding s_def by simp
qed

section \<open>The delay after an item\<close>

text \<open>
  C8 fails on the code.  With a single slot, the first item is downloaded and its
  invocation sleeps for \<^verbatim>\<open>downloadDelay\<close>; it has left the active collection before
  that.  The loop of \<^verbatim>\<open>start\<close> polls before the delay has elapsed, finds the active
  collection empty, moves the second item into it and starts its download.
\<close>

theorem slot_refilled_during_delay:
  "maxConcurrent (run single_slot delay_run) = 1
   \<and> DelayElapsed 0 \<notin> set delay_run
   \<and> tasks (run single_slot (take 4 delay_run)) = [(0, Delaying)]
   \<and> active (run single_slot (take 4 delay_run)) = []
   \<and> queue (run single_slot (take 4 delay_run)) = [1]
   \<and> tasks (run single_slot delay_run) = [(0, Delaying), (1, Starting)]
   \<and> active (run single_slot delay_run) = [1]
   \<and> queue (run single_slot delay_run) = []
   \<and> last (trace (run single_slot delay_run)) = ChromeDownload ''https://cdn.example/b.jpg'' ''Civitai/b.jpg''"
  by (simp add: delay_run_def single_slot_def eval_defs)

end
